theory Spec2Isabelle
  imports Main
begin

section \<open>JavaScript strings\<close>

text \<open>
  A JavaScript string is a sequence of UTF-16 code units; a code unit is modelled as a
  natural number (60 is \<open><\<close>, 62 is \<open>>\<close>, 47 is \<open>/\<close>, 46 is \<open>.\<close>, 10 is the
  newline). \<open>str\<close> turns an ASCII literal into its code units.
\<close>

type_synonym js_string = "nat list"

definition str :: "string \<Rightarrow> js_string" where
  "str s = map of_char s"

text \<open>
  Case folding of a regular expression with flag \<open>i\<close> (no flag \<open>u\<close>): the patterns of
  this program are ASCII, and a code unit outside ASCII never folds to an ASCII one, so
  folding the letters a-z to A-Z decides every comparison against a pattern character.
\<close>

definition canon :: "nat \<Rightarrow> nat" where
  "canon c = (if 97 \<le> c \<and> c \<le> 122 then c - 32 else c)"

text \<open>
  The class \<open>\s\<close> of a regular expression, which is also what \<open>trim\<close> removes: the
  white space and line terminator code units of ECMAScript.
\<close>

definition is_space :: "nat \<Rightarrow> bool" where
  "is_space c =
     (if 9 \<le> c \<and> c \<le> 13 then True
      else if 8192 \<le> c \<and> c \<le> 8202 then True
      else c \<in> {32, 160, 5760, 8232, 8233, 8239, 8287, 12288, 65279})"

definition trim :: "js_string \<Rightarrow> js_string" where
  "trim s = rev (dropWhile is_space (rev (dropWhile is_space s)))"

text \<open>
  \<open>toLowerCase\<close> on the letters A-Z. Other code units are kept: none of them lowers to
  one of the characters of \<open>.doc\<close>, and the format names are ASCII, which is all the
  program asks of \<open>toLowerCase\<close>.
\<close>

definition toLowerCase :: "js_string \<Rightarrow> js_string" where
  "toLowerCase s = map (\<lambda>c. if 65 \<le> c \<and> c \<le> 90 then c + 32 else c) s"

definition endsWith :: "js_string \<Rightarrow> js_string \<Rightarrow> bool" where
  "endsWith s suffix =
     (if length suffix \<le> length s then drop (length s - length suffix) s = suffix else False)"

text \<open>\<open>name.split('.')[0]\<close>: the code units before the first dot (all of them when
  there is no dot).\<close>

definition split_dot_first :: "js_string \<Rightarrow> js_string" where
  "split_dot_first s = takeWhile (\<lambda>c. c \<noteq> 46) s"

section \<open>Regular expressions and global replace\<close>

text \<open>
  A matcher tells whether its regular expression matches at the head of the given
  input, and how many code units the match takes.
\<close>

type_synonym matcher = "js_string \<Rightarrow> nat option"

fun lit_ci_prefix :: "js_string \<Rightarrow> js_string \<Rightarrow> bool" where
  "lit_ci_prefix [] s = True"
| "lit_ci_prefix (p # ps) [] = False"
| "lit_ci_prefix (p # ps) (c # cs) = (if canon p = canon c then lit_ci_prefix ps cs else False)"

text \<open>A literal pattern with flags \<open>gi\<close>, such as \<open>/<h1>/gi\<close>.\<close>

definition match_lit_ci :: "js_string \<Rightarrow> matcher" where
  "match_lit_ci p s = (if lit_ci_prefix p s then Some (length p) else None)"

text \<open>
  \<open>/<br\s*\/?>/gi\<close>: \<open><br\<close>, then the longest run of white space, then an optional
  slash, then \<open>>\<close>. Neither the slash nor \<open>>\<close> is white space, so backtracking into the
  run never finds another match.
\<close>

definition match_br :: matcher where
  "match_br s =
     (if lit_ci_prefix (str ''<br'') s then
        (let ws = takeWhile is_space (drop 3 s);
             rest = dropWhile is_space (drop 3 s)
         in case rest of
              [] \<Rightarrow> None
            | c # rest' \<Rightarrow>
                if c = 62 then Some (3 + length ws + 1)
                else if c = 47 then
                  (case rest' of
                     [] \<Rightarrow> None
                   | d # _ \<Rightarrow> if d = 62 then Some (3 + length ws + 2) else None)
                else None)
      else None)"

text \<open>
  \<open>/<[^>]+>/g\<close>: \<open><\<close>, then the longest non-empty run of code units other than \<open>>\<close>
  (line terminators and \<open><\<close> included), then \<open>>\<close>.
\<close>

definition match_tag :: matcher where
  "match_tag s =
     (case s of
        [] \<Rightarrow> None
      | c # rest \<Rightarrow>
          if c = 60 then
            (let body = takeWhile (\<lambda>x. x \<noteq> 62) rest
             in if body = [] then None
                else if length body < length rest then Some (length body + 2)
                else None)
          else None)"

text \<open>
  \<open>s.replace(re, r)\<close> with a global regular expression and a replacement \<open>r\<close> without
  \<open>$\<close> patterns: scan from the left; at a match write \<open>r\<close> and go on behind the match,
  elsewhere copy one code unit. The counter \<open>k\<close> is the number of code units of the
  current match still to skip. After an empty match the scan copies one code unit.
\<close>

fun replace_from :: "matcher \<Rightarrow> js_string \<Rightarrow> nat \<Rightarrow> js_string \<Rightarrow> js_string" where
  "replace_from m r k [] = []"
| "replace_from m r k (c # cs) =
     (if 0 < k then replace_from m r (k - 1) cs
      else case m (c # cs) of
             None \<Rightarrow> c # replace_from m r 0 cs
           | Some n \<Rightarrow>
               if n = 0 then r @ c # replace_from m r 0 cs
               else r @ replace_from m r (n - 1) cs)"

definition replace_all :: "matcher \<Rightarrow> js_string \<Rightarrow> js_string \<Rightarrow> js_string" where
  "replace_all m r s = replace_from m r 0 s"

section \<open>Text-family encoders\<close>

text \<open>The Markdown branch of \<open>startConversion\<close>: ten replacements, in this order.\<close>

definition mdContent :: "js_string \<Rightarrow> js_string" where
  "mdContent htmlContent =
     (let s1 = replace_all (match_lit_ci (str ''<h1>'')) (str ''# '') htmlContent;
          s2 = replace_all (match_lit_ci (str ''</h1>'')) [10, 10] s1;
          s3 = replace_all (match_lit_ci (str ''<h2>'')) (str ''## '') s2;
          s4 = replace_all (match_lit_ci (str ''</h2>'')) [10, 10] s3;
          s5 = replace_all (match_lit_ci (str ''<p>'')) [] s4;
          s6 = replace_all (match_lit_ci (str ''</p>'')) [10, 10] s5;
          s7 = replace_all match_br [10] s6;
          s8 = replace_all (match_lit_ci (str ''<li>'')) (str ''* '') s7;
          s9 = replace_all (match_lit_ci (str ''</li>'')) [10] s8
      in replace_all match_tag [] s9)"

text \<open>The plain-text branch (the final \<open>else\<close>, taken for TXT).\<close>

definition plainText :: "js_string \<Rightarrow> js_string" where
  "plainText htmlContent =
     (let s1 = replace_all match_br [10] htmlContent;
          s2 = replace_all (match_lit_ci (str ''</p>'')) [10] s1;
          s3 = replace_all match_tag [] s2
      in trim s3)"

text \<open>The DOCX branch: the template literal around \<open>${htmlContent}\<close>.\<close>

definition docx_head :: js_string where
  "docx_head =
     [10] @ str ''          <html xmlns:o='' @ [39] @
     str ''urn:schemas-microsoft-com:office:office'' @ [39] @ str '' xmlns:w='' @ [39] @
     str ''urn:schemas-microsoft-com:office:word'' @ [39] @ str '' xmlns='' @ [39] @
     str ''http://www.w3.org/TR/REC-html40'' @ [39] @ str ''>'' @ [10] @
     str ''          <head>'' @ [10] @ str ''            <meta charset='' @ [34] @
     str ''utf-8'' @ [34] @ str ''>'' @ [10] @
     str ''            <title>Converted Document</title>'' @ [10] @
     str ''            <!--[if gte mso 9]>'' @ [10] @
     str ''            <xml><w:WordDocument><w:View>Print</w:View><w:Zoom>100</w:Zoom></w:WordDocument></xml>'' @
     [10] @ str ''            <![endif]-->'' @ [10] @ str ''            <style>'' @ [10] @
     str ''              body { font-family: '' @ [39] @ str ''Calibri'' @ [39] @ str '', '' @
     [39] @ str ''Arial'' @ [39] @ str '', sans-serif; font-size: 11pt; }'' @ [10] @
     str ''              p { margin-bottom: 8pt; line-height: 1.2; }'' @ [10] @
     str ''            </style>'' @ [10] @ str ''          </head>'' @ [10] @
     str ''          <body>''"

definition docx_tail :: js_string where
  "docx_tail = str ''</body>'' @ [10] @ str ''          </html>''"

definition docxContent :: "js_string \<Rightarrow> js_string" where
  "docxContent htmlContent = docx_head @ htmlContent @ docx_tail"

text \<open>
  The ordered substitution table as the specification words it: h1 to \<open>#\<close> and a blank
  line, h2 to \<open>##\<close> and a blank line, p to nothing and a blank line, br to a newline, li to
  \<open>*\<close> and a newline; then the catch-all that deletes every remaining tag.
\<close>

definition md_substitutions :: "(matcher \<times> js_string) list" where
  "md_substitutions =
     [(match_lit_ci (str ''<h1>''), str ''# ''),
      (match_lit_ci (str ''</h1>''), [10, 10]),
      (match_lit_ci (str ''<h2>''), str ''## ''),
      (match_lit_ci (str ''</h2>''), [10, 10]),
      (match_lit_ci (str ''<p>''), []),
      (match_lit_ci (str ''</p>''), [10, 10]),
      (match_br, [10]),
      (match_lit_ci (str ''<li>''), str ''* ''),
      (match_lit_ci (str ''</li>''), [10])]"

definition markdown_by_spec :: "js_string \<Rightarrow> js_string" where
  "markdown_by_spec fragment =
     replace_all match_tag []
       (foldl (\<lambda>s (m, r). replace_all m r s) fragment md_substitutions)"

text \<open>A complete tag is a match of the catch-all expression somewhere in the string.\<close>

fun has_tag :: "js_string \<Rightarrow> bool" where
  "has_tag [] = False"
| "has_tag (c # cs) = (case match_tag (c # cs) of Some n \<Rightarrow> True | None \<Rightarrow> has_tag cs)"

text \<open>\<open>contains p s\<close>: \<open>p\<close> occurs in \<open>s\<close> as a contiguous substring.\<close>

fun starts_with :: "js_string \<Rightarrow> js_string \<Rightarrow> bool" where
  "starts_with [] s = True"
| "starts_with (p # ps) [] = False"
| "starts_with (p # ps) (c # cs) = (if p = c then starts_with ps cs else False)"

fun contains :: "js_string \<Rightarrow> js_string \<Rightarrow> bool" where
  "contains p [] = (p = [])"
| "contains p (c # cs) = (if starts_with p (c # cs) then True else contains p cs)"

text \<open>
  A fragment as a sequence of nodes: text, and tags given by what stands between
  \<open><\<close> and \<open>>\<close>. A node is well delimited when its text has no angle bracket, and a
  tag moreover is not empty.
\<close>

datatype node = Text js_string | Tag js_string

fun render_node :: "node \<Rightarrow> js_string" where
  "render_node (Text t) = t"
| "render_node (Tag b) = 60 # b @ [62]"

definition render :: "node list \<Rightarrow> js_string" where
  "render ns = concat (map render_node ns)"

definition bracket_free :: "js_string \<Rightarrow> bool" where
  "bracket_free s = list_all (\<lambda>c. c \<noteq> 60 \<and> c \<noteq> 62) s"

fun node_ok :: "node \<Rightarrow> bool" where
  "node_ok (Text t) = bracket_free t"
| "node_ok (Tag b) = (if b = [] then False else bracket_free b)"

text \<open>The allowlist of the extractor's prompt, tag names compared without case.\<close>

definition allowlist :: "js_string list" where
  "allowlist = [str ''h1'', str ''h2'', str ''p'', str ''br'', str ''ul'', str ''li'', str ''strong'']"

fun allowlisted :: "node \<Rightarrow> bool" where
  "allowlisted (Text t) = True"
| "allowlisted (Tag b) =
     (toLowerCase b \<in> set allowlist \<union> set (map (\<lambda>n. 47 # n) allowlist) \<union> {str ''br/''})"

text \<open>
  What each encoder writes for one node, as the specification words it. Tag names are
  compared without case. A line break tag is \<open>br\<close>, then white space, then an optional
  slash. Markdown: \<open>#\<close> and a blank for h1, \<open>##\<close> and a blank for h2, \<open>*\<close> and a blank
  for li, a blank line for closing h1, h2 and p, a newline for a line break and for closing
  li, nothing for p and for every other tag. Plain text: a newline for a line break and
  for closing p, nothing for every other tag. Text is kept as it is by both.
\<close>

definition br_body :: "js_string \<Rightarrow> bool" where
  "br_body b =
     (if toLowerCase (take 2 b) = str ''br''
      then (let rest = dropWhile is_space (drop 2 b) in rest = [] \<or> rest = [47])
      else False)"

fun md_piece :: "node \<Rightarrow> js_string" where
  "md_piece (Text t) = t"
| "md_piece (Tag b) =
     (let n = toLowerCase b in
      if n = str ''h1'' then str ''# ''
      else if n = str ''/h1'' \<or> n = str ''/h2'' then [10, 10]
      else if n = str ''h2'' then str ''## ''
      else if n = str ''p'' then []
      else if n = str ''/p'' then [10, 10]
      else if br_body b then [10]
      else if n = str ''li'' then str ''* ''
      else if n = str ''/li'' then [10]
      else [])"

fun txt_piece :: "node \<Rightarrow> js_string" where
  "txt_piece (Text t) = t"
| "txt_piece (Tag b) =
     (if br_body b then [10]
      else if toLowerCase b = str ''/p'' then [10]
      else [])"

text \<open>An output, given by what is written for each node, without what is written for tags.\<close>

fun text_piece :: "(node \<Rightarrow> js_string) \<Rightarrow> node \<Rightarrow> js_string" where
  "text_piece f (Text t) = f (Text t)"
| "text_piece f (Tag b) = []"

definition without_tag_pieces :: "(node \<Rightarrow> js_string) \<Rightarrow> node list \<Rightarrow> js_string" where
  "without_tag_pieces f ns = concat (map (text_piece f) ns)"

text \<open>
  Auxiliary notions for reasoning about one replacement pass over a well delimited
  fragment: a matcher that only ever matches a whole tag, the node a pass makes of a
  node, and the text of a fragment outside its tags.
\<close>

definition tag_matches :: "matcher \<Rightarrow> js_string \<Rightarrow> bool" where
  "tag_matches m b = (case m (60 # b @ [62]) of Some n \<Rightarrow> True | None \<Rightarrow> False)"

fun subst_node :: "matcher \<Rightarrow> js_string \<Rightarrow> node \<Rightarrow> node" where
  "subst_node m r (Text t) = Text t"
| "subst_node m r (Tag b) = (if tag_matches m b then Text r else Tag b)"

definition node_after :: "(matcher \<times> js_string) list \<Rightarrow> node \<Rightarrow> node" where
  "node_after subs n = foldl (\<lambda>n (m, r). subst_node m r n) n subs"

fun node_text :: "node \<Rightarrow> js_string" where
  "node_text (Text t) = t"
| "node_text (Tag b) = []"

definition text_of :: "node list \<Rightarrow> js_string" where
  "text_of ns = concat (map node_text ns)"

definition whole_tag :: "matcher \<Rightarrow> bool" where
  "whole_tag m =
     ((\<forall>c s. c \<noteq> 60 \<longrightarrow> m (c # s) = None) \<and>
      (\<forall>b rest. b \<noteq> [] \<longrightarrow> bracket_free b \<longrightarrow>
         m (60 # b @ 62 # rest) = (if tag_matches m b then Some (length b + 2) else None)))"

section \<open>The snapshot\<close>

text \<open>The canvas \<open>html2canvas\<close> gives: its width and height in pixels.\<close>

record canvas =
  canvas_width :: nat
  canvas_height :: nat

section \<open>The application state (types.ts, App.tsx)\<close>

datatype FileFormat = PDF | DOCX | TXT | JPG | PNG | MD

text \<open>A \<open>FileFormat\<close> is its name as a string.\<close>

fun format_name :: "FileFormat \<Rightarrow> js_string" where
  "format_name PDF = str ''PDF''"
| "format_name DOCX = str ''DOCX''"
| "format_name TXT = str ''TXT''"
| "format_name JPG = str ''JPG''"
| "format_name PNG = str ''PNG''"
| "format_name MD = str ''MD''"

datatype status = Idle | Uploading | Converting | Completed | Error

text \<open>The browser's \<open>File\<close>: name, size, declared type and bytes.\<close>

record File =
  file_name :: js_string
  file_size :: nat
  file_type :: js_string
  file_bytes :: "nat list"

record AppFile =
  id_file :: js_string
  name :: js_string
  size_file :: nat
  type_file :: js_string
  blob :: File
  previewUrl :: "js_string option"

text \<open>An object URL is modelled by its number: \<open>createObjectURL\<close> issues a fresh one.\<close>

record ConversionState =
  status :: status
  progress :: nat
  error :: "js_string option"
  resultUrl :: "nat option"
  resultName :: "js_string option"

text \<open>
  What a blob is made of: the strings given to the \<open>Blob\<close> constructor, or bytes when
  the blob comes from outside the program (\<open>pdf.output\<close>, \<open>res.blob\<close>).
\<close>

datatype payload = Bytes "nat list" | TextParts "js_string list"

datatype Blob = Blob (blob_payload: payload) (blob_type: js_string)

text \<open>
  The state of the component (\<open>file\<close> as \<open>file_st\<close>, \<open>targetFormat\<close>, \<open>conversion\<close>,
  \<open>previewHtml\<close>) and what it changes in the browser: the content of the hidden render
  container, the object URLs created and not revoked with their blobs, and the calls of
  the content extractor made so far. (\<open>isDragging\<close> only styles the upload zone and
  is left out.)
\<close>

record app =
  file_st :: "AppFile option"
  targetFormat :: FileFormat
  conversion :: ConversionState
  previewHtml :: js_string
  hiddenRender :: js_string
  objectURLs :: "(nat \<times> Blob) list"
  urlsIssued :: nat
  extractorCalls :: "(File \<times> FileFormat) list"

definition idle_state :: ConversionState where
  "idle_state = \<lparr>status = Idle, progress = 0, error = None, resultUrl = None, resultName = None\<rparr>"

definition initial_app :: app where
  "initial_app =
     \<lparr>file_st = None, targetFormat = PDF, conversion = idle_state, previewHtml = [],
      hiddenRender = [], objectURLs = [], urlsIssued = 0, extractorCalls = []\<rparr>"

definition createObjectURL :: "Blob \<Rightarrow> app \<Rightarrow> nat \<times> app" where
  "createObjectURL b s =
     (urlsIssued s,
      s\<lparr>objectURLs := objectURLs s @ [(urlsIssued s, b)], urlsIssued := urlsIssued s + 1\<rparr>)"

definition revokeObjectURL :: "nat \<Rightarrow> app \<Rightarrow> app" where
  "revokeObjectURL u s = s\<lparr>objectURLs := filter (\<lambda>(v, b). v \<noteq> u) (objectURLs s)\<rparr>"

text \<open>The message of line 26; it names the \<open>.docx\<close> format.\<close>

definition legacy_doc_message :: js_string where
  "legacy_doc_message =
     [19981, 25903, 25345, 26087, 29256, 32, 46, 100, 111, 99, 32, 26684, 24335, 65292,
      35831, 21478, 23384, 20026, 32, 46, 100, 111, 99, 120, 32, 26684, 24335, 21518,
      20877, 35797, 12290]"

definition container_lost_message :: js_string where
  "container_lost_message = [28210, 26579, 23481, 22120, 22833, 25928]"

definition node_lost_message :: js_string where
  "node_lost_message = [23548, 20986, 33410, 28857, 20002, 22833]"

definition timeout_message :: js_string where
  "timeout_message =
     [25991, 20214, 22788, 29702, 36229, 26102, 12290, 35831, 23581, 35797, 26356, 23567,
      30340, 25991, 20214, 25110, 21047, 26032, 39029, 38754, 12290]"

text \<open>\<open>handleFiles\<close>; the second argument is the identifier \<open>Math.random\<close> yields.\<close>

definition handleFiles :: "File list option \<Rightarrow> js_string \<Rightarrow> app \<Rightarrow> app" where
  "handleFiles files rnd s =
     (case files of
        None \<Rightarrow> s
      | Some [] \<Rightarrow> s
      | Some (selectedFile # others) \<Rightarrow>
          if endsWith (toLowerCase (file_name selectedFile)) (str ''.doc'') then
            s\<lparr>conversion :=
                \<lparr>status = Error, progress = 0, error = Some legacy_doc_message,
                 resultUrl = None, resultName = None\<rparr>\<rparr>
          else
            s\<lparr>file_st := Some \<lparr>id_file = rnd, name = file_name selectedFile,
                             size_file = file_size selectedFile,
                             type_file = file_type selectedFile, blob = selectedFile,
                             previewUrl = None\<rparr>,
              conversion := idle_state,
              previewHtml := []\<rparr>)"

definition reset :: "app \<Rightarrow> app" where
  "reset s =
     (let s1 = (case resultUrl (conversion s) of
                  Some u \<Rightarrow> revokeObjectURL u s
                | None \<Rightarrow> s)
      in s1\<lparr>file_st := None, conversion := idle_state, previewHtml := []\<rparr>)"

section \<open>startConversion\<close>

text \<open>
  What a stage throws: \<open>null\<close> or \<open>undefined\<close>, or a value that has properties, given
  by its \<open>message\<close> property (\<open>None\<close> for a value without one, such as a string
  or an event object).
\<close>

datatype thrown = Nullish | Thrown "js_string option"

text \<open>\<open>err.message || fallback\<close>; the empty string is falsy.\<close>

definition error_state :: "js_string option \<Rightarrow> ConversionState" where
  "error_state msg =
     \<lparr>status = Error, progress = 0,
      error = Some (case msg of
                      None \<Rightarrow> timeout_message
                    | Some m \<Rightarrow> if m = [] then timeout_message else m),
      resultUrl = None, resultName = None\<rparr>"

text \<open>
  The \<open>catch\<close> block (lines 153 to 160). The argument of \<open>setConversion\<close> reads
  \<open>err.message\<close>; on \<open>null\<close> and \<open>undefined\<close> this read throws a TypeError inside the
  block, \<open>setConversion\<close> is not called, and the state stays as it is.
\<close>

definition catch_block :: "thrown \<Rightarrow> app \<Rightarrow> app" where
  "catch_block err s =
     (case err of
        Nullish \<Rightarrow> s
      | Thrown msg \<Rightarrow> s\<lparr>conversion := error_state msg\<rparr>)"

text \<open>Lines 54 and 55.\<close>

definition resultName_of :: "js_string \<Rightarrow> FileFormat \<Rightarrow> js_string" where
  "resultName_of fname fmt =
     (let fileNameBase = split_dot_first fname
      in fileNameBase @ [46] @ toLowerCase (format_name fmt))"

definition render_root_head :: js_string where
  "render_root_head =
     [10] @ str ''        <div id='' @ [34] @ str ''render-root'' @ [34] @ str '' style='' @
     [34] @ str ''padding: 50px; font-family: '' @ [39] @ str ''Inter'' @ [39] @
     str '', system-ui, sans-serif; line-height: 1.6; color: #1a1a1a; width: 794px; background: white; white-space: pre-wrap; word-wrap: break-word; font-size: 15px;'' @
     [34] @ str ''>'' @ [10] @ str ''          ''"

definition render_root_tail :: js_string where
  "render_root_tail = [10] @ str ''        </div>''"

text \<open>
  \<open>startConversion\<close> is asynchronous. It is split at its suspension points into the
  part up to the call of the extractor, the part from the extractor's answer to the
  rendering delay, and the rest; between two parts other handlers may run. A
  continuation holds the variables the closure keeps: \<open>file\<close> and \<open>targetFormat\<close> as
  they were at the click, then \<open>htmlContent\<close> and \<open>resultName\<close>.
\<close>

datatype continuation =
    AwaitExtraction AppFile FileFormat
  | AwaitRender AppFile FileFormat js_string js_string

definition startConversion_begin :: "app \<Rightarrow> app \<times> continuation option" where
  "startConversion_begin s =
     (case file_st s of
        None \<Rightarrow> (s, None)
      | Some f \<Rightarrow>
          (s\<lparr>conversion := \<lparr>status = Converting, progress = 10, error = None,
                             resultUrl = None, resultName = None\<rparr>,
             extractorCalls := extractorCalls s @ [(blob f, targetFormat s)]\<rparr>,
           Some (AwaitExtraction f (targetFormat s))))"

text \<open>
  \<open>reconstructContentToHtml\<close> answers with the fragment, or throws: the \<open>Error\<close> its
  own \<open>catch\<close> block makes (geminiService.ts, lines 82 to 85), or what the constructor
  called before its \<open>try\<close> (line 21) throws. \<open>container\<close> tells whether
  \<open>hiddenRenderRef.current\<close> is there.
\<close>

definition startConversion_extracted ::
  "AppFile \<Rightarrow> FileFormat \<Rightarrow> thrown + js_string \<Rightarrow> bool \<Rightarrow> app \<Rightarrow> app \<times> continuation option" where
  "startConversion_extracted f fmt answer container s =
     (case answer of
        Inl err \<Rightarrow> (catch_block err s, None)
      | Inr htmlContent \<Rightarrow>
          (let s1 = s\<lparr>previewHtml := htmlContent\<rparr>;
               s2 = s1\<lparr>conversion := (conversion s1)\<lparr>progress := 50\<rparr>\<rparr>;
               rname = resultName_of (name f) fmt
           in if \<not> container then
                (catch_block (Thrown (Some container_lost_message)) s2, None)
              else
                (s2\<lparr>hiddenRender := render_root_head @ htmlContent @ render_root_tail\<rparr>,
                 Some (AwaitRender f fmt htmlContent rname))))"

text \<open>
  What the calls outside the program answer in the last part, each either a value or what
  the call throws: whether the render root is found; the canvas \<open>html2canvas\<close> resolves
  to; the data URL \<open>toDataURL\<close> gives for a canvas, a type and a quality (in
  hundredths); the blob the jsPDF calls of lines 81 to 98 end with, for the image data
  and the canvas; and the blob fetched from a data URL (lines 103 and 104). The
  pagination of lines 84 to 97 computes with IEEE doubles on the page size jsPDF returns;
  that arithmetic is not modelled, and its outcome, the document or what a jsPDF call
  throws, is part of the answer.
\<close>

record externals =
  element_found :: bool
  html2canvas :: "thrown + canvas"
  toDataURL :: "canvas \<Rightarrow> js_string \<Rightarrow> nat \<Rightarrow> thrown + js_string"
  jspdf_output :: "js_string \<Rightarrow> canvas \<Rightarrow> thrown + Blob"
  fetch_blob :: "js_string \<Rightarrow> thrown + Blob"

text \<open>
  The dispatch on the target format (lines 69 to 145): \<open>Inl\<close> what was thrown, \<open>Inr\<close>
  the final blob.
\<close>

definition encode :: "FileFormat \<Rightarrow> js_string \<Rightarrow> externals \<Rightarrow> thrown + Blob" where
  "encode fmt htmlContent x =
     (if fmt = PDF \<or> fmt = JPG \<or> fmt = PNG then
        (if \<not> element_found x then Inl (Thrown (Some node_lost_message))
         else case html2canvas x of
           Inl err \<Rightarrow> Inl err
         | Inr cv \<Rightarrow>
             if fmt = PDF then
               (case toDataURL x cv (str ''image/jpeg'') 95 of
                  Inl err \<Rightarrow> Inl err
                | Inr imgData \<Rightarrow> jspdf_output x imgData cv)
             else
               (let mime = (if fmt = JPG then str ''image/jpeg'' else str ''image/png'')
                in case toDataURL x cv mime 90 of
                     Inl err \<Rightarrow> Inl err
                   | Inr dataUrl \<Rightarrow> fetch_blob x dataUrl))
      else if fmt = DOCX then
        Inr (Blob (TextParts [[65279], docxContent htmlContent]) (str ''application/msword''))
      else if fmt = MD then
        Inr (Blob (TextParts [mdContent htmlContent]) (str ''text/markdown;charset=utf-8''))
      else
        Inr (Blob (TextParts [plainText htmlContent]) (str ''text/plain;charset=utf-8'')))"

definition startConversion_rendered ::
  "FileFormat \<Rightarrow> js_string \<Rightarrow> js_string \<Rightarrow> externals \<Rightarrow> app \<Rightarrow> app" where
  "startConversion_rendered fmt htmlContent rname x s =
     (case encode fmt htmlContent x of
        Inl err \<Rightarrow> catch_block err s
      | Inr finalBlob \<Rightarrow>
          (let (url, s1) = createObjectURL finalBlob s
           in s1\<lparr>conversion :=
                  \<lparr>status = Completed, progress = 100, error = None,
                   resultUrl = Some url, resultName = Some rname\<rparr>\<rparr>))"

section \<open>The user interface as a gate\<close>

text \<open>
  Which control the component renders in which state (lines 190 to 318): the upload
  zone when there is no file and no error; otherwise the card, with the reset button in
  the error panel and in the completed panel, the start button when idle, and the format
  buttons outside the error state, disabled while converting and when completed.
\<close>

definition upload_zone_shown :: "app \<Rightarrow> bool" where
  "upload_zone_shown s = (file_st s = None \<and> status (conversion s) \<noteq> Error)"

definition reset_button_shown :: "app \<Rightarrow> bool" where
  "reset_button_shown s =
     (if upload_zone_shown s then False
      else if status (conversion s) = Error then True
      else status (conversion s) = Completed)"

definition start_button_shown :: "app \<Rightarrow> bool" where
  "start_button_shown s =
     (if upload_zone_shown s then False
      else if status (conversion s) = Error then False
      else status (conversion s) = Idle)"

definition format_buttons_enabled :: "app \<Rightarrow> bool" where
  "format_buttons_enabled s =
     (if upload_zone_shown s then False
      else if status (conversion s) = Error then False
      else if status (conversion s) = Converting then False
      else status (conversion s) \<noteq> Completed)"

text \<open>
  A session: the application state and the continuations of \<open>startConversion\<close> that
  wait for an answer. An event is a user action on a control that is shown, or the
  answer a waiting continuation (given by its position) gets.
\<close>

record session =
  app_state :: app
  waiting :: "continuation list"

datatype event =
    SelectFiles "File list option" js_string
  | ClickStart
  | ClickReset
  | ClickFormat FileFormat
  | Extracted nat "thrown + js_string" bool
  | Rendered nat externals

definition initial_session :: session where
  "initial_session = \<lparr>app_state = initial_app, waiting = []\<rparr>"

definition without :: "nat \<Rightarrow> 'a list \<Rightarrow> 'a list" where
  "without i xs = take i xs @ drop (Suc i) xs"

text \<open>
  One event. With \<open>gated\<close> the event of a control happens only where the component
  shows that control, as in the browser; without, the handler is called in any state.
  The answer to a continuation needs that continuation to wait, gated or not.
\<close>

fun step :: "bool \<Rightarrow> event \<Rightarrow> session \<Rightarrow> session option" where
  "step gated (SelectFiles files rnd) u =
     (if gated \<and> \<not> upload_zone_shown (app_state u) then None
      else Some (u\<lparr>app_state := handleFiles files rnd (app_state u)\<rparr>))"
| "step gated ClickStart u =
     (if gated \<and> \<not> start_button_shown (app_state u) then None
      else (let (s, k) = startConversion_begin (app_state u)
            in Some \<lparr>app_state = s,
                     waiting = waiting u @ (case k of None \<Rightarrow> [] | Some c \<Rightarrow> [c])\<rparr>))"
| "step gated ClickReset u =
     (if gated \<and> \<not> reset_button_shown (app_state u) then None
      else Some (u\<lparr>app_state := reset (app_state u)\<rparr>))"
| "step gated (ClickFormat fmt) u =
     (if gated \<and> \<not> format_buttons_enabled (app_state u) then None
      else Some (u\<lparr>app_state := (app_state u)\<lparr>targetFormat := fmt\<rparr>\<rparr>))"
| "step gated (Extracted i answer container) u =
     (if i < length (waiting u) then
        (case waiting u ! i of
           AwaitExtraction f fmt \<Rightarrow>
             (let (s, k) = startConversion_extracted f fmt answer container (app_state u)
              in Some \<lparr>app_state = s,
                       waiting = without i (waiting u) @ (case k of None \<Rightarrow> [] | Some c \<Rightarrow> [c])\<rparr>)
         | AwaitRender f fmt htmlContent rname \<Rightarrow> None)
      else None)"
| "step gated (Rendered i x) u =
     (if i < length (waiting u) then
        (case waiting u ! i of
           AwaitExtraction f fmt \<Rightarrow> None
         | AwaitRender f fmt htmlContent rname \<Rightarrow>
             Some \<lparr>app_state = startConversion_rendered fmt htmlContent rname x (app_state u),
                   waiting = without i (waiting u)\<rparr>)
      else None)"

fun run :: "bool \<Rightarrow> event list \<Rightarrow> session \<Rightarrow> session option" where
  "run gated [] u = Some u"
| "run gated (e # es) u = (case step gated e u of None \<Rightarrow> None | Some u' \<Rightarrow> run gated es u')"

definition live_urls :: "session \<Rightarrow> nat list" where
  "live_urls u = map fst (objectURLs (app_state u))"

definition held_url :: "session \<Rightarrow> nat option" where
  "held_url u = resultUrl (conversion (app_state u))"

definition status_of :: "session \<Rightarrow> status" where
  "status_of u = status (conversion (app_state u))"

definition file_of :: "session \<Rightarrow> AppFile option" where
  "file_of u = file_st (app_state u)"

definition extracted_names :: "session \<Rightarrow> js_string list" where
  "extracted_names u = map (\<lambda>(f, fmt). file_name f) (extractorCalls (app_state u))"



definition legacy_doc :: "js_string \<Rightarrow> bool" where
  "legacy_doc fname = endsWith (toLowerCase fname) (str ''.doc'')"


text \<open>
  Stripping markdown syntax, as the specification words the content-preservation
  property: every \<open>## \<close>, \<open># \<close> and \<open>* \<close> is deleted.
\<close>

definition strip_markdown :: "js_string \<Rightarrow> js_string" where
  "strip_markdown s =
     replace_all (match_lit_ci (str ''* '')) []
       (replace_all (match_lit_ci (str ''# '')) []
          (replace_all (match_lit_ci (str ''## '')) [] s))"

text \<open>What holds of every session, gated or not: no legacy file is stored, and none was
  given to the extractor.\<close>

definition doc_inv :: "app \<Rightarrow> bool" where
  "doc_inv s =
     ((case file_st s of
         None \<Rightarrow> True
       | Some f \<Rightarrow> \<not> legacy_doc (name f) \<and> name f = file_name (blob f)) \<and>
      list_all (\<lambda>(f, fmt). \<not> legacy_doc (file_name f)) (extractorCalls s))"

definition progress_of :: "session \<Rightarrow> nat" where
  "progress_of u = progress (conversion (app_state u))"

text \<open>
  Inputs of the examples: three files; externals where no render root is found; and
  externals where the render root is found and \<open>html2canvas\<close> rejects with
  \<open>undefined\<close>.
\<close>

definition file_a :: File where
  "file_a = \<lparr>file_name = str ''a.txt'', file_size = 1, file_type = str ''text/plain'', file_bytes = [97]\<rparr>"

definition file_b :: File where
  "file_b = \<lparr>file_name = str ''b.txt'', file_size = 1, file_type = str ''text/plain'', file_bytes = [98]\<rparr>"

definition file_doc :: File where
  "file_doc = \<lparr>file_name = str ''report.doc'', file_size = 1, file_type = str ''application/msword'', file_bytes = [0]\<rparr>"

definition no_externals :: externals where
  "no_externals =
     \<lparr>element_found = False, html2canvas = Inl (Thrown None),
      toDataURL = (\<lambda>cv mime quality. Inl (Thrown None)),
      jspdf_output = (\<lambda>imgData cv. Inl (Thrown None)),
      fetch_blob = (\<lambda>dataUrl. Inl (Thrown None))\<rparr>"

definition snapshot_rejects_undefined :: externals where
  "snapshot_rejects_undefined =
     \<lparr>element_found = True, html2canvas = Inl Nullish,
      toDataURL = (\<lambda>cv mime quality. Inl (Thrown None)),
      jspdf_output = (\<lambda>imgData cv. Inl (Thrown None)),
      fetch_blob = (\<lambda>dataUrl. Inl (Thrown None))\<rparr>"


section \<open>Global replace and the catch-all expression\<close>

lemma mdContent_by_spec: "mdContent h = markdown_by_spec h"
  by (simp add: mdContent_def markdown_by_spec_def md_substitutions_def)

lemma replace_from_drop: "replace_from m r k s = replace_from m r 0 (drop k s)"
proof (induction s arbitrary: k)
  case Nil
  then show ?case by simp
next
  case (Cons c cs)
  show ?case
  proof (cases k)
    case 0
    then show ?thesis by simp
  next
    case (Suc j)
    then show ?thesis using Cons.IH [of j] by simp
  qed
qed

lemma match_tag_Some_iff:
  "match_tag s = Some n \<longleftrightarrow>
     (\<exists>b rest. s = 60 # b @ 62 # rest \<and> b \<noteq> [] \<and> 62 \<notin> set b \<and> n = length b + 2)"
proof
  assume h: "match_tag s = Some n"
  then obtain c rest where s: "s = c # rest" by (cases s) (auto simp: match_tag_def)
  let ?b = "takeWhile (\<lambda>x. x \<noteq> 62) rest"
  from h s have c: "c = 60" and b: "?b \<noteq> []" and l: "length ?b < length rest" and n: "n = length ?b + 2"
    by (auto simp: match_tag_def Let_def split: if_splits)
  from l have "dropWhile (\<lambda>x. x \<noteq> 62) rest \<noteq> []"
    by (metis append_Nil2 less_irrefl takeWhile_dropWhile_id)
  then obtain d ds where d: "dropWhile (\<lambda>x. x \<noteq> 62) rest = d # ds" by (cases "dropWhile (\<lambda>x. x \<noteq> 62) rest") auto
  then have "d = 62" using hd_dropWhile [of "\<lambda>x. x \<noteq> 62" rest] by auto
  with d have "rest = ?b @ 62 # ds" by (metis takeWhile_dropWhile_id)
  moreover have "62 \<notin> set ?b" by (auto dest: set_takeWhileD)
  ultimately show "\<exists>b rest. s = 60 # b @ 62 # rest \<and> b \<noteq> [] \<and> 62 \<notin> set b \<and> n = length b + 2"
    using s c b n by blast
next
  assume "\<exists>b rest. s = 60 # b @ 62 # rest \<and> b \<noteq> [] \<and> 62 \<notin> set b \<and> n = length b + 2"
  then obtain b rest where s: "s = 60 # b @ 62 # rest" and b: "b \<noteq> []" "62 \<notin> set b" and n: "n = length b + 2"
    by blast
  from b have "takeWhile (\<lambda>x. x \<noteq> 62) (b @ 62 # rest) = b"
    by (auto simp: takeWhile_tail)
  with s b n show "match_tag s = Some n" by (simp add: match_tag_def)
qed


lemma match_tag_None_Cons:
  "match_tag (c # cs) = None \<longleftrightarrow> (c \<noteq> 60 \<or> cs = [] \<or> hd cs = 62 \<or> 62 \<notin> set cs)"
proof (cases "match_tag (c # cs)")
  case None
  show ?thesis
  proof (rule ccontr)
    assume "\<not> ?thesis"
    with None have c: "c = 60" and cs: "cs \<noteq> []" "hd cs \<noteq> 62" "62 \<in> set cs" by auto
    from cs(3) obtain b rest where "cs = b @ 62 # rest" "62 \<notin> set b"
      by (meson split_list_first)
    moreover with cs have "b \<noteq> []" by (cases b) auto
    ultimately have "match_tag (c # cs) = Some (length b + 2)"
      using c match_tag_Some_iff [of "c # cs" "length b + 2"] by auto
    with None show False by simp
  qed
next
  case (Some n)
  then obtain b rest where "c # cs = 60 # b @ 62 # rest" "b \<noteq> []" "62 \<notin> set b"
    using match_tag_Some_iff [of "c # cs" n] by blast
  then have "c = 60" "cs \<noteq> []" "hd cs \<noteq> 62" "62 \<in> set cs" by (cases b; auto)+
  with Some show ?thesis by simp
qed

lemma set_replace_from_Nil: "set (replace_from m [] k s) \<subseteq> set s"
proof (induction s arbitrary: k)
  case Nil
  then show ?case by simp
next
  case (Cons c cs)
  have "set (replace_from m [] j cs) \<subseteq> set cs" for j by (rule Cons.IH)
  then show ?case by (auto split: option.splits)
qed

lemma no_tag_after_strip: "\<not> has_tag (replace_from match_tag [] 0 s)"
proof (induction "length s" arbitrary: s rule: less_induct)
  case less
  show ?case
  proof (cases s)
    case Nil
    then show ?thesis by simp
  next
    case (Cons c cs)
    show ?thesis
    proof (cases "match_tag (c # cs)")
      case (Some n)
      then have n: "n \<noteq> 0" using match_tag_Some_iff [of "c # cs" n] by auto
      have "replace_from match_tag [] 0 s = replace_from match_tag [] 0 (drop (n - 1) cs)"
        using Some n Cons replace_from_drop [of match_tag "[]" "n - 1" cs] by simp
      moreover have "length (drop (n - 1) cs) < length s" using Cons by simp
      ultimately show ?thesis using less by simp
    next
      case None
      have ih: "\<not> has_tag (replace_from match_tag [] 0 cs)" using less Cons by simp
      have eq: "replace_from match_tag [] 0 s = c # replace_from match_tag [] 0 cs"
        using None Cons by simp
      have "match_tag (c # replace_from match_tag [] 0 cs) = None"
      proof (cases "c = 60 \<and> cs \<noteq> [] \<and> hd cs \<noteq> 62")
        case False
        then consider "c \<noteq> 60" | "cs = []" | "cs \<noteq> []" "hd cs = 62" by blast
        then show ?thesis
        proof cases
          case 1 then show ?thesis by (simp add: match_tag_None_Cons)
        next
          case 2 then show ?thesis by (simp add: match_tag_None_Cons)
        next
          case 3
          then obtain ds where "cs = 62 # ds" by (cases cs) auto
          moreover have "match_tag (62 # ds) = None" by (simp add: match_tag_None_Cons)
          ultimately have "replace_from match_tag [] 0 cs = 62 # replace_from match_tag [] 0 ds"
            by simp
          then show ?thesis by (simp add: match_tag_None_Cons)
        qed
      next
        case True
        with None have "62 \<notin> set cs" by (simp add: match_tag_None_Cons)
        then have "62 \<notin> set (replace_from match_tag [] 0 cs)"
          using set_replace_from_Nil [of match_tag 0 cs] by blast
        then show ?thesis by (simp add: match_tag_None_Cons)
      qed
      with ih eq show ?thesis by simp
    qed
  qed
qed

lemma has_tag_iff:
  "has_tag s \<longleftrightarrow> (\<exists>a b c. s = a @ 60 # b @ 62 # c \<and> b \<noteq> [] \<and> 62 \<notin> set b)"
proof
  show "has_tag s \<Longrightarrow> \<exists>a b c. s = a @ 60 # b @ 62 # c \<and> b \<noteq> [] \<and> 62 \<notin> set b"
  proof (induction s)
    case Nil
    then show ?case by simp
  next
    case (Cons x xs)
    show ?case
    proof (cases "match_tag (x # xs)")
      case None
      with Cons.prems have "has_tag xs" by simp
      then obtain a b c where "xs = a @ 60 # b @ 62 # c" "b \<noteq> []" "62 \<notin> set b"
        using Cons.IH by blast
      then have "x # xs = (x # a) @ 60 # b @ 62 # c \<and> b \<noteq> [] \<and> 62 \<notin> set b" by simp
      then show ?thesis by blast
    next
      case (Some n)
      then obtain b c where "x # xs = [] @ 60 # b @ 62 # c" "b \<noteq> []" "62 \<notin> set b"
        using match_tag_Some_iff [of "x # xs" n] by auto
      then show ?thesis by blast
    qed
  qed
next
  assume "\<exists>a b c. s = a @ 60 # b @ 62 # c \<and> b \<noteq> [] \<and> 62 \<notin> set b"
  then obtain a b c where s: "s = a @ 60 # b @ 62 # c" and b: "b \<noteq> []" "62 \<notin> set b" by blast
  have m: "match_tag (60 # b @ 62 # c) = Some (length b + 2)"
    using b match_tag_Some_iff [of "60 # b @ 62 # c" "length b + 2"] by blast
  have "has_tag (a @ 60 # b @ 62 # c)"
  proof (induction a)
    case Nil
    then show ?case using m by simp
  next
    case (Cons x xs)
    then show ?case by (simp split: option.splits)
  qed
  with s show "has_tag s" by simp
qed

lemma has_tag_infix: "has_tag s \<Longrightarrow> has_tag (u @ s @ v)"
proof -
  assume "has_tag s"
  then obtain a b c where "s = a @ 60 # b @ 62 # c" "b \<noteq> []" "62 \<notin> set b"
    using has_tag_iff [of s] by blast
  then have "u @ s @ v = (u @ a) @ 60 # b @ 62 # (c @ v) \<and> b \<noteq> [] \<and> 62 \<notin> set b" by simp
  then show ?thesis using has_tag_iff [of "u @ s @ v"] by blast
qed

lemma trim_infix: "\<exists>u v. s = u @ trim s @ v"
proof -
  let ?t = "dropWhile is_space s"
  have "s = takeWhile is_space s @ ?t" by simp
  moreover have "?t = rev (dropWhile is_space (rev ?t)) @ rev (takeWhile is_space (rev ?t))"
    by (metis rev_append rev_rev_ident takeWhile_dropWhile_id)
  ultimately have "s = takeWhile is_space s @ trim s @ rev (takeWhile is_space (rev ?t))"
    by (simp add: trim_def)
  then show ?thesis by blast
qed

lemma has_tag_trim: "has_tag (trim s) \<Longrightarrow> has_tag s"
  using trim_infix [of s] has_tag_infix [of "trim s"] by metis

section \<open>Replacement passes over well delimited fragments\<close>

lemma replace_text:
  assumes "whole_tag m" "bracket_free t"
  shows "replace_from m r 0 (t @ s) = t @ replace_from m r 0 s"
  using assms(2)
proof (induction t)
  case Nil
  then show ?case by simp
next
  case (Cons c cs)
  then have "c \<noteq> 60" "bracket_free cs" by (simp_all add: bracket_free_def)
  moreover from this assms(1) have "m (c # cs @ s) = None" by (simp add: whole_tag_def)
  ultimately show ?case using Cons.IH by simp
qed

lemma replace_tag:
  assumes "whole_tag m" "b \<noteq> []" "bracket_free b"
  shows "replace_from m r 0 (60 # b @ 62 # s) =
           (if tag_matches m b then r else 60 # b @ [62]) @ replace_from m r 0 s"
proof (cases "tag_matches m b")
  case True
  with assms have "m (60 # b @ 62 # s) = Some (length b + 2)" by (simp add: whole_tag_def)
  then have "replace_from m r 0 (60 # b @ 62 # s) = r @ replace_from m r (length b + 1) (b @ 62 # s)"
    by simp
  also have "replace_from m r (length b + 1) (b @ 62 # s) = replace_from m r 0 s"
    using replace_from_drop [of m r "length b + 1" "b @ 62 # s"] by simp
  finally show ?thesis using True by simp
next
  case False
  with assms have "m (60 # b @ 62 # s) = None" by (simp add: whole_tag_def)
  then have "replace_from m r 0 (60 # b @ 62 # s) = 60 # replace_from m r 0 (b @ 62 # s)"
    by simp
  also have "replace_from m r 0 (b @ 62 # s) = b @ replace_from m r 0 (62 # s)"
    using assms(1) assms(3) by (rule replace_text)
  also have "replace_from m r 0 (62 # s) = 62 # replace_from m r 0 s"
    using assms(1) by (simp add: whole_tag_def)
  finally show ?thesis using False by simp
qed

lemma replace_render:
  assumes "whole_tag m"
  shows "list_all node_ok ns \<Longrightarrow>
         replace_all m r (render ns) = render (map (subst_node m r) ns)"
proof (induction ns)
  case Nil
  then show ?case by (simp add: replace_all_def render_def)
next
  case (Cons n ns)
  then have ih: "replace_from m r 0 (render ns) = render (map (subst_node m r) ns)"
    by (simp add: replace_all_def)
  show ?case
  proof (cases n)
    case (Text t)
    with Cons.prems have "bracket_free t" by simp
    then have "replace_from m r 0 (t @ render ns) = t @ replace_from m r 0 (render ns)"
      using assms by (simp add: replace_text)
    with ih Text show ?thesis by (simp add: replace_all_def render_def)
  next
    case (Tag b)
    with Cons.prems have "b \<noteq> []" "bracket_free b" by (simp_all split: if_splits)
    then have "replace_from m r 0 (60 # b @ 62 # render ns) =
           (if tag_matches m b then r else 60 # b @ [62]) @ replace_from m r 0 (render ns)"
      using assms by (rule replace_tag [rotated])
    with ih Tag show ?thesis by (simp add: replace_all_def render_def)
  qed
qed

lemma subst_node_ok: "bracket_free r \<Longrightarrow> node_ok n \<Longrightarrow> node_ok (subst_node m r n)"
  by (cases n) (simp_all split: if_splits)

lemma node_after_Nil: "node_after [] n = n"
  by (simp add: node_after_def)

lemma node_after_Cons: "node_after ((m, r) # subs) n = node_after subs (subst_node m r n)"
  by (simp add: node_after_def)

lemma foldl_render:
  assumes "list_all (\<lambda>(m, r). whole_tag m \<and> bracket_free r) subs"
    and "list_all node_ok ns"
  shows "foldl (\<lambda>s (m, r). replace_all m r s) (render ns) subs = render (map (node_after subs) ns) \<and>
         list_all node_ok (map (node_after subs) ns)"
  using assms
proof (induction subs arbitrary: ns)
  case Nil
  then show ?case by (simp add: node_after_Nil)
next
  case (Cons p subs)
  obtain m r where p: "p = (m, r)" by (cases p)
  with Cons.prems have m: "whole_tag m" "bracket_free r"
    and rest: "list_all (\<lambda>(m, r). whole_tag m \<and> bracket_free r) subs"
    by simp_all
  let ?ns1 = "map (subst_node m r) ns"
  have ok1: "list_all node_ok ?ns1"
    using Cons.prems(2) m(2) by (simp add: list_all_iff subst_node_ok)
  have step: "replace_all m r (render ns) = render ?ns1"
    using m(1) Cons.prems(2) by (rule replace_render)
  have eq: "map (node_after subs) ?ns1 = map (node_after (p # subs)) ns"
    by (simp add: p node_after_Cons)
  from Cons.IH [OF rest ok1]
  have a: "foldl (\<lambda>s (m, r). replace_all m r s) (render ?ns1) subs =
             render (map (node_after subs) ?ns1)"
    and b: "list_all node_ok (map (node_after subs) ?ns1)" by blast+
  have "foldl (\<lambda>s (m, r). replace_all m r s) (render ns) (p # subs) =
          foldl (\<lambda>s (m, r). replace_all m r s) (render ?ns1) subs"
    using step p by simp
  with a b show ?case unfolding eq by simp
qed

lemma match_tag_whole: "b \<noteq> [] \<Longrightarrow> bracket_free b \<Longrightarrow> match_tag (60 # b @ 62 # s) = Some (length b + 2)"
proof -
  assume "b \<noteq> []" "bracket_free b"
  then have "b \<noteq> [] \<and> 62 \<notin> set b" by (auto simp: bracket_free_def list_all_iff)
  then show ?thesis using match_tag_Some_iff [of "60 # b @ 62 # s" "length b + 2"] by blast
qed

lemma match_tag_text: "c \<noteq> 60 \<Longrightarrow> match_tag (c # s) = None"
  by (simp add: match_tag_def)

lemma strip_text: "bracket_free t \<Longrightarrow> replace_from match_tag [] 0 (t @ s) = t @ replace_from match_tag [] 0 s"
proof (induction t)
  case Nil
  then show ?case by simp
next
  case (Cons c cs)
  then have "c \<noteq> 60" "bracket_free cs" by (simp_all add: bracket_free_def)
  then show ?case using Cons.IH by (simp add: match_tag_text)
qed

lemma strip_render: "list_all node_ok ns \<Longrightarrow> replace_all match_tag [] (render ns) = text_of ns"
proof (induction ns)
  case Nil
  then show ?case by (simp add: replace_all_def render_def text_of_def)
next
  case (Cons n ns)
  then have ih: "replace_from match_tag [] 0 (render ns) = text_of ns"
    by (simp add: replace_all_def)
  show ?case
  proof (cases n)
    case (Text t)
    with Cons.prems have "bracket_free t" by simp
    with ih Text show ?thesis by (simp add: replace_all_def render_def text_of_def strip_text)
  next
    case (Tag b)
    with Cons.prems have b: "b \<noteq> []" "bracket_free b" by (simp_all split: if_splits)
    have "replace_from match_tag [] 0 (60 # b @ 62 # render ns) =
            replace_from match_tag [] (length b + 1) (b @ 62 # render ns)"
      using match_tag_whole [OF b, of "render ns"] by simp
    also have "\<dots> = replace_from match_tag [] 0 (render ns)"
      using replace_from_drop [of match_tag "[]" "length b + 1" "b @ 62 # render ns"] by simp
    finally show ?thesis using ih Tag by (simp add: replace_all_def render_def text_of_def)
  qed
qed

lemma text_of_bracket_free: "list_all node_ok ns \<Longrightarrow> bracket_free (text_of ns)"
proof (induction ns)
  case Nil
  then show ?case by (simp add: text_of_def bracket_free_def)
next
  case (Cons n ns)
  then show ?case by (cases n) (simp_all add: text_of_def bracket_free_def)
qed

lemma bracket_free_trim: "bracket_free s \<Longrightarrow> bracket_free (trim s)"
proof -
  assume h: "bracket_free s"
  have "set (trim s) \<subseteq> set (dropWhile is_space s)"
    unfolding trim_def using set_dropWhileD [of _ is_space "rev (dropWhile is_space s)"] by auto
  then have "set (trim s) \<subseteq> set s"
    using set_dropWhileD [of _ is_space s] by blast
  with h show ?thesis by (auto simp: bracket_free_def list_all_iff)
qed

lemma canon_60: "canon c = 60 \<longleftrightarrow> c = 60"
  by (auto simp: canon_def)

lemma canon_62: "canon c = 62 \<longleftrightarrow> c = 62"
  by (auto simp: canon_def)

lemma lit_body:
  assumes "bracket_free pb" "bracket_free b"
  shows "lit_ci_prefix (pb @ [62]) (b @ 62 # rest) \<longleftrightarrow> map canon pb = map canon b"
  using assms
proof (induction pb arbitrary: b)
  case Nil
  show ?case
  proof (cases b)
    case Nil
    then show ?thesis by simp
  next
    case (Cons x xs)
    with Nil.prems have "x \<noteq> 62" by (simp add: bracket_free_def)
    then have "canon 62 \<noteq> canon x" using canon_62 [of x] by (simp add: canon_def)
    with Cons show ?thesis by simp
  qed
next
  case (Cons y ys)
  then have y: "y \<noteq> 62" "bracket_free ys" by (simp_all add: bracket_free_def)
  show ?case
  proof (cases b)
    case Nil
    have "canon y \<noteq> canon 62" using y(1) canon_62 [of y] by (simp add: canon_def)
    with Nil show ?thesis by simp
  next
    case (Cons x xs)
    with Cons.prems have "bracket_free xs" by (simp add: bracket_free_def)
    with Cons.IH [OF y(2), of xs] Cons show ?thesis by auto
  qed
qed

lemma whole_tag_lit:
  assumes "bracket_free pb"
  shows "whole_tag (match_lit_ci (60 # pb @ [62]))"
proof -
  have a: "match_lit_ci (60 # pb @ [62]) (c # s) = None" if "c \<noteq> 60" for c s
    using that canon_60 [of c] by (auto simp: match_lit_ci_def canon_def)
  have b: "match_lit_ci (60 # pb @ [62]) (60 # b @ 62 # rest) =
             (if tag_matches (match_lit_ci (60 # pb @ [62])) b then Some (length b + 2) else None)"
    if "bracket_free b" for b rest
  proof -
    have 1: "lit_ci_prefix (60 # pb @ [62]) (60 # b @ 62 # rest) \<longleftrightarrow> map canon pb = map canon b"
      using lit_body [OF assms that, of rest] by simp
    have 2: "lit_ci_prefix (60 # pb @ [62]) (60 # b @ [62]) \<longleftrightarrow> map canon pb = map canon b"
      using lit_body [OF assms that, of "[]"] by simp
    have 3: "map canon pb = map canon b \<Longrightarrow> length pb = length b"
      by (metis length_map)
    show ?thesis using 1 2 3 by (auto simp: match_lit_ci_def tag_matches_def)
  qed
  show ?thesis unfolding whole_tag_def using a b by blast
qed

lemma not_space_62: "\<not> is_space 62"
  by (simp add: is_space_def)

lemma br_spaces:
  assumes "bracket_free d"
  shows "takeWhile is_space (d @ 62 # rest) = takeWhile is_space d"
    and "dropWhile is_space (d @ 62 # rest) = dropWhile is_space d @ 62 # rest"
  using assms not_space_62 by (induction d) (simp_all add: bracket_free_def)

lemma match_br_tag:
  assumes "bracket_free b"
  shows "match_br (60 # b @ 62 # rest) =
           (if tag_matches match_br b then Some (length b + 2) else None)"
proof (cases "lit_ci_prefix (str ''br'') b")
  case False
  then have "\<not> lit_ci_prefix (str ''<br'') (60 # b @ 62 # s)" for s
  proof (cases b)
    case Nil
    then show ?thesis by (simp add: str_def canon_def)
  next
    case (Cons x xs)
    note b = this
    show ?thesis
    proof (cases xs)
      case Nil
      with b False show ?thesis by (simp add: str_def canon_def)
    next
      case (Cons y ys)
      with b False show ?thesis by (auto simp: str_def split: if_splits)
    qed
  qed
  then have "match_br (60 # b @ 62 # s) = None" for s by (simp add: match_br_def)
  from this [of rest] this [of "[]"] show ?thesis by (simp add: tag_matches_def)
next
  case True
  then obtain x y d where b: "b = x # y # d"
    by (cases b; cases "tl b") (auto simp: str_def split: if_splits)
  with assms have d: "bracket_free d" by (simp add: bracket_free_def)
  from True b have p: "lit_ci_prefix (str ''<br'') (60 # b @ 62 # s)" for s
    by (simp add: str_def split: if_splits)
  let ?w = "takeWhile is_space d" and ?e = "dropWhile is_space d"
  have len: "length b = 2 + length ?w + length ?e"
    using b by (metis add.assoc length_Cons length_append takeWhile_dropWhile_id Suc_eq_plus1 add_2_eq_Suc)
  have e_ok: "bracket_free ?e"
    using d set_dropWhileD [of _ is_space d] by (auto simp: bracket_free_def list_all_iff)
  have val: "match_br (60 # b @ 62 # s) =
               (case ?e @ 62 # s of
                  [] \<Rightarrow> None
                | c # rest' \<Rightarrow>
                    if c = 62 then Some (3 + length ?w + 1)
                    else if c = 47 then
                      (case rest' of [] \<Rightarrow> None
                       | d # _ \<Rightarrow> if d = 62 then Some (3 + length ?w + 2) else None)
                    else None)" for s
    using p [of s] b br_spaces [OF d, of s] by (simp add: match_br_def Let_def)
  show ?thesis
  proof (cases ?e)
    case Nil
    with val len show ?thesis by (simp add: tag_matches_def)
  next
    case (Cons c cs)
    with e_ok have c: "c \<noteq> 62" "bracket_free cs" by (simp_all add: bracket_free_def)
    show ?thesis
    proof (cases cs)
      case Nil
      with Cons val len c show ?thesis by (simp add: tag_matches_def)
    next
      case (Cons c' cs')
      with c have "c' \<noteq> 62" by (simp add: bracket_free_def)
      with Cons \<open>?e = c # cs\<close> val c show ?thesis by (simp add: tag_matches_def)
    qed
  qed
qed

lemma whole_tag_br: "whole_tag match_br"
proof -
  have "match_br (c # s) = None" if "c \<noteq> 60" for c s
    using that canon_60 [of c] by (auto simp: match_br_def str_def canon_def)
  then show ?thesis unfolding whole_tag_def using match_br_tag by blast
qed

section \<open>The encoders on sequences of text runs and tags\<close>

lemma canon_lower:
  assumes "\<not> (65 \<le> p \<and> p \<le> 90)"
  shows "canon p = canon c \<longleftrightarrow> (if 65 \<le> c \<and> c \<le> 90 then c + 32 else c) = p"
  using assms by (auto simp: canon_def)

lemma map_canon_lower:
  assumes "list_all (\<lambda>p. \<not> (65 \<le> p \<and> p \<le> 90)) pb"
  shows "map canon pb = map canon b \<longleftrightarrow> toLowerCase b = pb"
  using assms
proof (induction pb arbitrary: b)
  case Nil
  then show ?case by (auto simp: toLowerCase_def)
next
  case (Cons p ps)
  then have p: "\<not> (65 \<le> p \<and> p \<le> 90)" and ps: "list_all (\<lambda>p. \<not> (65 \<le> p \<and> p \<le> 90)) ps"
    by simp_all
  show ?case
  proof (cases b)
    case Nil
    then show ?thesis by (simp add: toLowerCase_def)
  next
    case (Cons c cs)
    have "map canon ps = map canon cs \<longleftrightarrow> toLowerCase cs = ps" using ps by (rule Cons.IH)
    with Cons canon_lower [OF p, of c] show ?thesis by (simp add: toLowerCase_def)
  qed
qed

lemma tag_matches_lit:
  assumes "bracket_free pb" "list_all (\<lambda>p. \<not> (65 \<le> p \<and> p \<le> 90)) pb" "bracket_free b"
  shows "tag_matches (match_lit_ci (60 # pb @ [62])) b \<longleftrightarrow> toLowerCase b = pb"
proof -
  have "lit_ci_prefix (60 # pb @ [62]) (60 # b @ [62]) \<longleftrightarrow> map canon pb = map canon b"
    using lit_body [OF assms(1) assms(3), of "[]"] by simp
  then show ?thesis using map_canon_lower [OF assms(2), of b]
    by (simp add: tag_matches_def match_lit_ci_def)
qed

lemma br_prefix:
  "lit_ci_prefix (str ''br'') b \<longleftrightarrow> toLowerCase (take 2 b) = str ''br''"
proof (cases b)
  case Nil
  then show ?thesis by (simp add: str_def toLowerCase_def)
next
  case (Cons x xs)
  note b = this
  show ?thesis
  proof (cases xs)
    case Nil
    with b show ?thesis by (simp add: str_def toLowerCase_def)
  next
    case (Cons y ys)
    have "canon 98 = canon x \<longleftrightarrow> (if 65 \<le> x \<and> x \<le> 90 then x + 32 else x) = 98"
      by (rule canon_lower) simp
    moreover have "canon 114 = canon y \<longleftrightarrow> (if 65 \<le> y \<and> y \<le> 90 then y + 32 else y) = 114"
      by (rule canon_lower) simp
    ultimately show ?thesis using b Cons by (simp add: str_def toLowerCase_def)
  qed
qed

lemma tag_matches_br:
  assumes "bracket_free b"
  shows "tag_matches match_br b \<longleftrightarrow> br_body b"
proof (cases "lit_ci_prefix (str ''br'') b")
  case False
  have "\<not> lit_ci_prefix (str ''<br'') (60 # b @ [62])"
  proof (cases b)
    case Nil
    then show ?thesis by (simp add: str_def canon_def)
  next
    case (Cons x xs)
    note b = this
    show ?thesis
    proof (cases xs)
      case Nil
      with b False show ?thesis by (simp add: str_def canon_def)
    next
      case (Cons y ys)
      with b False show ?thesis by (auto simp: str_def split: if_splits)
    qed
  qed
  then have "match_br (60 # b @ [62]) = None" by (simp add: match_br_def)
  moreover from False have "\<not> br_body b" using br_prefix [of b] by (simp add: br_body_def)
  ultimately show ?thesis by (simp add: tag_matches_def)
next
  case True
  then obtain x y d where b: "b = x # y # d"
    by (cases b; cases "tl b") (auto simp: str_def split: if_splits)
  with assms have d: "bracket_free d" by (simp add: bracket_free_def)
  from True b have p: "lit_ci_prefix (str ''<br'') (60 # b @ [62])"
    by (simp add: str_def split: if_splits)
  let ?w = "takeWhile is_space d" and ?e = "dropWhile is_space d"
  have e_ok: "bracket_free ?e"
    using d set_dropWhileD [of _ is_space d] by (auto simp: bracket_free_def list_all_iff)
  have val: "match_br (60 # b @ [62]) =
               (case ?e @ [62] of
                  [] \<Rightarrow> None
                | c # rest' \<Rightarrow>
                    if c = 62 then Some (3 + length ?w + 1)
                    else if c = 47 then
                      (case rest' of [] \<Rightarrow> None
                       | d # _ \<Rightarrow> if d = 62 then Some (3 + length ?w + 2) else None)
                    else None)"
    using p b br_spaces [OF d, of "[]"] by (simp add: match_br_def Let_def)
  have body: "br_body b \<longleftrightarrow> (?e = [] \<or> ?e = [47])"
    using True br_prefix [of b] b by (simp add: br_body_def Let_def)
  show ?thesis
  proof (cases ?e)
    case Nil
    with val body show ?thesis by (simp add: tag_matches_def)
  next
    case (Cons c cs)
    with e_ok have c: "c \<noteq> 62" "bracket_free cs" by (simp_all add: bracket_free_def)
    show ?thesis
    proof (cases cs)
      case Nil
      with Cons val body c show ?thesis by (simp add: tag_matches_def)
    next
      case (Cons c' cs')
      with c have "c' \<noteq> 62" by (simp add: bracket_free_def)
      with Cons \<open>?e = c # cs\<close> val body c show ?thesis by (simp add: tag_matches_def)
    qed
  qed
qed

lemma md_subs_ok:
  "list_all (\<lambda>(m, r). whole_tag m \<and> bracket_free r) md_substitutions"
proof -
  have "whole_tag (match_lit_ci (str ''<h1>''))" using whole_tag_lit [of "str ''h1''"]
    by (simp add: str_def bracket_free_def)
  moreover have "whole_tag (match_lit_ci (str ''</h1>''))" using whole_tag_lit [of "str ''/h1''"]
    by (simp add: str_def bracket_free_def)
  moreover have "whole_tag (match_lit_ci (str ''<h2>''))" using whole_tag_lit [of "str ''h2''"]
    by (simp add: str_def bracket_free_def)
  moreover have "whole_tag (match_lit_ci (str ''</h2>''))" using whole_tag_lit [of "str ''/h2''"]
    by (simp add: str_def bracket_free_def)
  moreover have "whole_tag (match_lit_ci (str ''<p>''))" using whole_tag_lit [of "str ''p''"]
    by (simp add: str_def bracket_free_def)
  moreover have "whole_tag (match_lit_ci (str ''</p>''))" using whole_tag_lit [of "str ''/p''"]
    by (simp add: str_def bracket_free_def)
  moreover have "whole_tag (match_lit_ci (str ''<li>''))" using whole_tag_lit [of "str ''li''"]
    by (simp add: str_def bracket_free_def)
  moreover have "whole_tag (match_lit_ci (str ''</li>''))" using whole_tag_lit [of "str ''/li''"]
    by (simp add: str_def bracket_free_def)
  moreover have "bracket_free (str ''# '')" "bracket_free (str ''## '')" "bracket_free (str ''* '')"
    "bracket_free [10, 10]" "bracket_free [10]" "bracket_free []"
    by (simp_all add: str_def bracket_free_def)
  ultimately show ?thesis using whole_tag_br by (simp add: md_substitutions_def)
qed

lemma txt_subs_ok:
  "list_all (\<lambda>(m, r). whole_tag m \<and> bracket_free r)
     [(match_br, [10]), (match_lit_ci (str ''</p>''), [10])]"
proof -
  have "whole_tag (match_lit_ci (str ''</p>''))" using whole_tag_lit [of "str ''/p''"]
    by (simp add: str_def bracket_free_def)
  then show ?thesis using whole_tag_br by (simp add: bracket_free_def)
qed

lemma lit_tags:
  assumes "bracket_free b"
  shows "tag_matches (match_lit_ci (str ''<h1>'')) b \<longleftrightarrow> toLowerCase b = str ''h1''"
    and "tag_matches (match_lit_ci (str ''</h1>'')) b \<longleftrightarrow> toLowerCase b = str ''/h1''"
    and "tag_matches (match_lit_ci (str ''<h2>'')) b \<longleftrightarrow> toLowerCase b = str ''h2''"
    and "tag_matches (match_lit_ci (str ''</h2>'')) b \<longleftrightarrow> toLowerCase b = str ''/h2''"
    and "tag_matches (match_lit_ci (str ''<p>'')) b \<longleftrightarrow> toLowerCase b = str ''p''"
    and "tag_matches (match_lit_ci (str ''</p>'')) b \<longleftrightarrow> toLowerCase b = str ''/p''"
    and "tag_matches (match_lit_ci (str ''<li>'')) b \<longleftrightarrow> toLowerCase b = str ''li''"
    and "tag_matches (match_lit_ci (str ''</li>'')) b \<longleftrightarrow> toLowerCase b = str ''/li''"
  using tag_matches_lit [of "str ''h1''" b] tag_matches_lit [of "str ''/h1''" b]
    tag_matches_lit [of "str ''h2''" b] tag_matches_lit [of "str ''/h2''" b]
    tag_matches_lit [of "str ''p''" b] tag_matches_lit [of "str ''/p''" b]
    tag_matches_lit [of "str ''li''" b] tag_matches_lit [of "str ''/li''" b] assms
  by (simp_all add: str_def bracket_free_def)

lemma md_node:
  assumes "node_ok n"
  shows "node_text (node_after md_substitutions n) = md_piece n"
proof (cases n)
  case (Text t)
  then show ?thesis by (simp add: node_after_def md_substitutions_def)
next
  case (Tag b)
  with assms have b: "bracket_free b" by (simp split: if_splits)
  note t = lit_tags [OF b] tag_matches_br [OF b]
  have ne: "str ''h1'' \<noteq> str ''/h1''" "str ''h1'' \<noteq> str ''h2''" "str ''h1'' \<noteq> str ''/h2''"
    "str ''h1'' \<noteq> str ''p''" "str ''h1'' \<noteq> str ''/p''" "str ''h1'' \<noteq> str ''li''" "str ''h1'' \<noteq> str ''/li''"
    "str ''/h1'' \<noteq> str ''h2''" "str ''/h1'' \<noteq> str ''/h2''" "str ''/h1'' \<noteq> str ''p''"
    "str ''/h1'' \<noteq> str ''/p''" "str ''/h1'' \<noteq> str ''li''" "str ''/h1'' \<noteq> str ''/li''"
    "str ''h2'' \<noteq> str ''/h2''" "str ''h2'' \<noteq> str ''p''" "str ''h2'' \<noteq> str ''/p''"
    "str ''h2'' \<noteq> str ''li''" "str ''h2'' \<noteq> str ''/li''"
    "str ''/h2'' \<noteq> str ''p''" "str ''/h2'' \<noteq> str ''/p''" "str ''/h2'' \<noteq> str ''li''"
    "str ''/h2'' \<noteq> str ''/li''"
    "str ''p'' \<noteq> str ''/p''" "str ''p'' \<noteq> str ''li''" "str ''p'' \<noteq> str ''/li''"
    "str ''/p'' \<noteq> str ''li''" "str ''/p'' \<noteq> str ''/li''" "str ''li'' \<noteq> str ''/li''"
    by (simp_all add: str_def)
  show ?thesis unfolding Tag
    by (simp add: node_after_def md_substitutions_def t Let_def) (use ne in auto)
qed

lemma txt_node:
  assumes "node_ok n"
  shows "node_text (node_after [(match_br, [10]), (match_lit_ci (str ''</p>''), [10])] n) = txt_piece n"
proof (cases n)
  case (Text t)
  then show ?thesis by (simp add: node_after_def)
next
  case (Tag b)
  with assms have b: "bracket_free b" by (simp split: if_splits)
  note t = lit_tags [OF b] tag_matches_br [OF b]
  show ?thesis unfolding Tag by (simp add: node_after_def t)
qed

lemma text_of_map:
  "list_all node_ok ns \<Longrightarrow> (\<And>n. node_ok n \<Longrightarrow> node_text (g n) = f n) \<Longrightarrow>
   text_of (map g ns) = concat (map f ns)"
  by (induction ns) (simp_all add: text_of_def)

lemma mdContent_render:
  assumes "list_all node_ok ns"
  shows "mdContent (render ns) = concat (map md_piece ns)"
proof -
  from foldl_render [OF md_subs_ok assms]
  have f: "foldl (\<lambda>s (m, r). replace_all m r s) (render ns) md_substitutions =
             render (map (node_after md_substitutions) ns)"
    and ok: "list_all node_ok (map (node_after md_substitutions) ns)" by blast+
  have "mdContent (render ns) = markdown_by_spec (render ns)" by (rule mdContent_by_spec)
  also have "\<dots> = text_of (map (node_after md_substitutions) ns)"
    using f strip_render [OF ok] by (simp add: markdown_by_spec_def)
  also have "\<dots> = concat (map md_piece ns)"
    using assms md_node by (rule text_of_map)
  finally show ?thesis .
qed

lemma plainText_render:
  assumes "list_all node_ok ns"
  shows "plainText (render ns) = trim (concat (map txt_piece ns))"
proof -
  let ?subs = "[(match_br, [10]), (match_lit_ci (str ''</p>''), [10])]"
  from foldl_render [OF txt_subs_ok assms]
  have f: "foldl (\<lambda>s (m, r). replace_all m r s) (render ns) ?subs = render (map (node_after ?subs) ns)"
    and ok: "list_all node_ok (map (node_after ?subs) ns)" by blast+
  have "plainText (render ns) = trim (text_of (map (node_after ?subs) ns))"
    using f strip_render [OF ok] by (simp add: plainText_def)
  also have "text_of (map (node_after ?subs) ns) = concat (map txt_piece ns)"
    using assms txt_node by (rule text_of_map)
  finally show ?thesis .
qed

lemma txt_piece_bracket_free: "node_ok n \<Longrightarrow> bracket_free (txt_piece n)"
  by (cases n) (simp_all add: bracket_free_def)

lemma txt_pieces_bracket_free: "list_all node_ok ns \<Longrightarrow> bracket_free (concat (map txt_piece ns))"
proof (induction ns)
  case Nil
  then show ?case by (simp add: bracket_free_def)
next
  case (Cons n ns)
  then show ?case using txt_piece_bracket_free [of n] by (simp add: bracket_free_def)
qed

lemma without_tag_pieces_text:
  "(\<And>t. f (Text t) = t) \<Longrightarrow> without_tag_pieces f ns = text_of ns"
proof (induction ns)
  case Nil
  then show ?case by (simp add: without_tag_pieces_def text_of_def)
next
  case (Cons n ns)
  then show ?case by (cases n) (simp_all add: without_tag_pieces_def text_of_def)
qed


section \<open>What every session of the user interface satisfies\<close>














lemma doc_inv_handleFiles: "doc_inv s \<Longrightarrow> doc_inv (handleFiles files rnd s)"
  by (auto simp: doc_inv_def handleFiles_def legacy_doc_def split: option.splits list.splits)

lemma doc_inv_reset: "doc_inv s \<Longrightarrow> doc_inv (reset s)"
  by (auto simp: doc_inv_def reset_def revokeObjectURL_def split: option.splits)

lemma doc_inv_format: "doc_inv s \<Longrightarrow> doc_inv (s\<lparr>targetFormat := fmt\<rparr>)"
  by (simp add: doc_inv_def)

lemma doc_inv_begin: "doc_inv s \<Longrightarrow> doc_inv (fst (startConversion_begin s))"
  by (auto simp: doc_inv_def startConversion_begin_def split: option.splits if_splits)

lemma doc_inv_catch: "doc_inv s \<Longrightarrow> doc_inv (catch_block err s)"
  by (cases err) (simp_all add: doc_inv_def catch_block_def)

lemma doc_inv_extracted:
  "doc_inv s \<Longrightarrow> doc_inv (fst (startConversion_extracted f fmt answer container s))"
  using doc_inv_catch
  by (auto simp: doc_inv_def startConversion_extracted_def catch_block_def Let_def
      split: sum.splits option.splits thrown.splits)

lemma doc_inv_rendered:
  "doc_inv s \<Longrightarrow> doc_inv (startConversion_rendered fmt html rname x s)"
  using doc_inv_catch [of s]
  by (auto simp: doc_inv_def startConversion_rendered_def createObjectURL_def
      split: sum.splits)

lemma doc_inv_step:
  assumes "doc_inv (app_state u)" "step gated e u = Some u'"
  shows "doc_inv (app_state u')"
proof (cases e)
  case (SelectFiles files rnd)
  with assms show ?thesis using doc_inv_handleFiles [of "app_state u" files rnd]
    by (auto split: if_splits)
next
  case ClickStart
  with assms show ?thesis using doc_inv_begin [of "app_state u"]
    by (auto split: if_splits prod.splits)
next
  case ClickReset
  with assms show ?thesis using doc_inv_reset [of "app_state u"] by (auto split: if_splits)
next
  case (ClickFormat fmt)
  with assms show ?thesis using doc_inv_format [of "app_state u" fmt] by (auto split: if_splits)
next
  case (Extracted i answer container)
  with assms show ?thesis
    using doc_inv_extracted [of "app_state u" _ _ answer container]
    by (auto split: if_splits continuation.splits prod.splits) (metis fst_conv)
next
  case (Rendered i x)
  with assms show ?thesis
    using doc_inv_rendered [of "app_state u" _ _ _ x]
    by (auto split: if_splits continuation.splits)
qed

lemma doc_inv_run: "doc_inv (app_state u) \<Longrightarrow> run gated es u = Some u' \<Longrightarrow> doc_inv (app_state u')"
proof (induction es arbitrary: u)
  case Nil
  then show ?case by simp
next
  case (Cons e es)
  from Cons.prems(2) obtain v where v: "step gated e u = Some v" "run gated es v = Some u'"
    by (auto split: option.splits)
  from Cons.prems(1) v(1) have "doc_inv (app_state v)" by (rule doc_inv_step)
  then show ?case using v(2) by (rule Cons.IH)
qed

lemma doc_inv_reachable: "run gated es initial_session = Some u \<Longrightarrow> doc_inv (app_state u)"
proof -
  have "doc_inv (app_state initial_session)"
    by (simp add: doc_inv_def initial_session_def initial_app_def)
  then show "run gated es initial_session = Some u \<Longrightarrow> doc_inv (app_state u)"
    by (rule doc_inv_run)
qed


section \<open>Substrings\<close>

lemma starts_with_append: "starts_with p (p @ s)"
  by (induction p) simp_all

lemma contains_append: "contains p (a @ p @ b)"
proof (induction a)
  case Nil
  show ?case by (cases "p @ b") (simp_all add: starts_with_append del: starts_with.simps, metis starts_with_append)
next
  case (Cons x xs)
  then show ?case by simp
qed

lemma starts_with_iff: "starts_with p s \<longleftrightarrow> (\<exists>r. s = p @ r)"
proof (induction p s rule: starts_with.induct)
  case (1 s)
  then show ?case by simp
next
  case (2 p ps)
  then show ?case by simp
next
  case (3 p ps c cs)
  then show ?case by auto
qed

lemma contains_iff: "contains p s \<longleftrightarrow> (\<exists>a b. s = a @ p @ b)"
proof (induction s)
  case Nil
  then show ?case by auto
next
  case (Cons c cs)
  show ?case
  proof
    assume "contains p (c # cs)"
    then consider "starts_with p (c # cs)" | "contains p cs" by (auto split: if_splits)
    then show "\<exists>a b. c # cs = a @ p @ b"
    proof cases
      case 1
      then obtain r where "c # cs = [] @ p @ r" using starts_with_iff by auto
      then show ?thesis by blast
    next
      case 2
      then obtain a b where "cs = a @ p @ b" using Cons.IH by blast
      then have "c # cs = (c # a) @ p @ b" by simp
      then show ?thesis by blast
    qed
  next
    assume "\<exists>a b. c # cs = a @ p @ b"
    then obtain a b where ab: "c # cs = a @ p @ b" by blast
    show "contains p (c # cs)"
    proof (cases a)
      case Nil
      with ab have "starts_with p (c # cs)" using starts_with_iff by auto
      then show ?thesis by simp
    next
      case (Cons x xs)
      with ab have "cs = xs @ p @ b" by simp
      then have "contains p cs" using Cons.IH by blast
      then show ?thesis by simp
    qed
  qed
qed

lemma contains_infix: "contains p s \<Longrightarrow> contains p (u @ s @ v)"
proof -
  assume "contains p s"
  then obtain a b where "s = a @ p @ b" using contains_iff by blast
  then have "u @ s @ v = (u @ a) @ p @ (b @ v)" by simp
  then show ?thesis using contains_iff by blast
qed


section \<open>Evaluation rules\<close>



lemma catch_block_error: "catch_block (Thrown msg) s = s\<lparr>conversion := error_state msg\<rparr>"
  by (simp add: catch_block_def)

lemmas session_eval =
  handleFiles_def reset_def startConversion_begin_def startConversion_extracted_def
  startConversion_rendered_def encode_def createObjectURL_def revokeObjectURL_def
  catch_block_def error_state_def idle_state_def initial_app_def initial_session_def
  upload_zone_shown_def reset_button_shown_def start_button_shown_def format_buttons_enabled_def
  without_def resultName_of_def split_dot_first_def toLowerCase_def endsWith_def
  file_a_def file_b_def file_doc_def no_externals_def snapshot_rejects_undefined_def
  live_urls_def held_url_def status_of_def file_of_def extracted_names_def progress_of_def

lemmas string_eval =
  replace_all_def match_lit_ci_def match_br_def match_tag_def str_def canon_def is_space_def


section \<open>Claims\<close>

text \<open>
  C2. For the target MD the payload is the text \<open>mdContent\<close> makes of the fragment.
  \<open>mdContent\<close> is the ordered substitution sequence of the specification followed by the
  catch-all, and after it no complete tag is left, whatever the fragment. On a fragment of
  well delimited nodes the output is, node by node: the text as it is; \<open>#\<close> and a blank
  for h1, \<open>##\<close> and a blank for h2, \<open>*\<close> and a blank for li, a blank line for closing h1,
  h2 and p, a newline for br and closing li, nothing for p and for every other tag, tag
  names taken without case. The scenario fragment becomes \<open># Title\<close>, a blank line,
  \<open>Line one\<close>, a newline, \<open>Line two\<close> (and a closing blank line); a second fragment
  shows h2, li, upper case, and the tags the catch-all deletes.
\<close>

theorem markdown_sequence_and_scenario:
  "encode MD fragment x =
     Inr (Blob (TextParts [mdContent fragment]) (str ''text/markdown;charset=utf-8'')) \<and>
   mdContent fragment = markdown_by_spec fragment \<and>
   \<not> has_tag (mdContent fragment) \<and>
   (list_all node_ok ns \<longrightarrow> mdContent (render ns) = concat (map md_piece ns)) \<and>
   mdContent (str ''<h1>Title</h1><p>Line one<br/>Line two</p>'') =
     str ''# Title'' @ [10, 10] @ str ''Line one'' @ [10] @ str ''Line two'' @ [10, 10] \<and>
   mdContent (str ''<H2>Sub</H2><ul><LI>a</li><li>b</li></ul><p>c<BR >d</P><script>x</script>'') =
     str ''## Sub'' @ [10, 10] @ str ''* a'' @ [10] @ str ''* b'' @ [10] @ str ''c'' @ [10] @
     str ''d'' @ [10, 10] @ str ''x''"
proof -
  have "encode MD fragment x =
     Inr (Blob (TextParts [mdContent fragment]) (str ''text/markdown;charset=utf-8''))"
    by (simp add: encode_def)
  moreover have "mdContent fragment = markdown_by_spec fragment"
    by (rule mdContent_by_spec)
  moreover have "\<not> has_tag (mdContent fragment)"
    using no_tag_after_strip by (simp add: mdContent_def replace_all_def Let_def)
  moreover have "list_all node_ok ns \<longrightarrow> mdContent (render ns) = concat (map md_piece ns)"
    using mdContent_render by blast
  moreover have "mdContent (str ''<h1>Title</h1><p>Line one<br/>Line two</p>'') =
     str ''# Title'' @ [10, 10] @ str ''Line one'' @ [10] @ str ''Line two'' @ [10, 10]"
    by (simp add: mdContent_def string_eval)
  moreover have
    "mdContent (str ''<H2>Sub</H2><ul><LI>a</li><li>b</li></ul><p>c<BR >d</P><script>x</script>'') =
     str ''## Sub'' @ [10, 10] @ str ''* a'' @ [10] @ str ''* b'' @ [10] @ str ''c'' @ [10] @
     str ''d'' @ [10, 10] @ str ''x''"
    by (simp add: mdContent_def string_eval)
  ultimately show ?thesis by blast
qed

theorem markdown_sequence_and_scenario_witness:
  "list_all node_ok
     [Tag (str ''H1''), Text (str ''T''), Tag (str ''/h1''), Tag (str ''ul''), Tag (str ''li''),
      Text (str ''a # b''), Tag (str ''/LI''), Tag (str ''/ul''), Tag (str ''h2''), Text (str ''s''),
      Tag (str ''/h2''), Tag (str ''p''), Text (str ''x''), Tag (str ''br /''), Text (str ''y''),
      Tag (str ''/p''), Tag (str ''script''), Text (str ''z''), Tag (str ''/script'')] \<and>
   mdContent (render
     [Tag (str ''H1''), Text (str ''T''), Tag (str ''/h1''), Tag (str ''ul''), Tag (str ''li''),
      Text (str ''a # b''), Tag (str ''/LI''), Tag (str ''/ul''), Tag (str ''h2''), Text (str ''s''),
      Tag (str ''/h2''), Tag (str ''p''), Text (str ''x''), Tag (str ''br /''), Text (str ''y''),
      Tag (str ''/p''), Tag (str ''script''), Text (str ''z''), Tag (str ''/script'')]) =
   str ''# T'' @ [10, 10] @ str ''* a # b'' @ [10] @ str ''## s'' @ [10, 10] @ str ''x'' @ [10] @
   str ''y'' @ [10, 10] @ str ''z''"
proof -
  have ok: "list_all node_ok
     [Tag (str ''H1''), Text (str ''T''), Tag (str ''/h1''), Tag (str ''ul''), Tag (str ''li''),
      Text (str ''a # b''), Tag (str ''/LI''), Tag (str ''/ul''), Tag (str ''h2''), Text (str ''s''),
      Tag (str ''/h2''), Tag (str ''p''), Text (str ''x''), Tag (str ''br /''), Text (str ''y''),
      Tag (str ''/p''), Tag (str ''script''), Text (str ''z''), Tag (str ''/script'')]"
    by (simp add: bracket_free_def str_def)
  have pieces: "concat (map md_piece
     [Tag (str ''H1''), Text (str ''T''), Tag (str ''/h1''), Tag (str ''ul''), Tag (str ''li''),
      Text (str ''a # b''), Tag (str ''/LI''), Tag (str ''/ul''), Tag (str ''h2''), Text (str ''s''),
      Tag (str ''/h2''), Tag (str ''p''), Text (str ''x''), Tag (str ''br /''), Text (str ''y''),
      Tag (str ''/p''), Tag (str ''script''), Text (str ''z''), Tag (str ''/script'')]) =
   str ''# T'' @ [10, 10] @ str ''* a # b'' @ [10] @ str ''## s'' @ [10, 10] @ str ''x'' @ [10] @
   str ''y'' @ [10, 10] @ str ''z''"
    by (simp add: br_body_def toLowerCase_def is_space_def str_def)
  from markdown_sequence_and_scenario
    [of _ _ "[Tag (str ''H1''), Text (str ''T''), Tag (str ''/h1''), Tag (str ''ul''), Tag (str ''li''),
      Text (str ''a # b''), Tag (str ''/LI''), Tag (str ''/ul''), Tag (str ''h2''), Text (str ''s''),
      Tag (str ''/h2''), Tag (str ''p''), Text (str ''x''), Tag (str ''br /''), Text (str ''y''),
      Tag (str ''/p''), Tag (str ''script''), Text (str ''z''), Tag (str ''/script'')]"] ok
  have "mdContent (render
     [Tag (str ''H1''), Text (str ''T''), Tag (str ''/h1''), Tag (str ''ul''), Tag (str ''li''),
      Text (str ''a # b''), Tag (str ''/LI''), Tag (str ''/ul''), Tag (str ''h2''), Text (str ''s''),
      Tag (str ''/h2''), Tag (str ''p''), Text (str ''x''), Tag (str ''br /''), Text (str ''y''),
      Tag (str ''/p''), Tag (str ''script''), Text (str ''z''), Tag (str ''/script'')]) =
    concat (map md_piece
     [Tag (str ''H1''), Text (str ''T''), Tag (str ''/h1''), Tag (str ''ul''), Tag (str ''li''),
      Text (str ''a # b''), Tag (str ''/LI''), Tag (str ''/ul''), Tag (str ''h2''), Text (str ''s''),
      Tag (str ''/h2''), Tag (str ''p''), Text (str ''x''), Tag (str ''br /''), Text (str ''y''),
      Tag (str ''/p''), Tag (str ''script''), Text (str ''z''), Tag (str ''/script'')])"
    by blast
  with pieces have "mdContent (render
     [Tag (str ''H1''), Text (str ''T''), Tag (str ''/h1''), Tag (str ''ul''), Tag (str ''li''),
      Text (str ''a # b''), Tag (str ''/LI''), Tag (str ''/ul''), Tag (str ''h2''), Text (str ''s''),
      Tag (str ''/h2''), Tag (str ''p''), Text (str ''x''), Tag (str ''br /''), Text (str ''y''),
      Tag (str ''/p''), Tag (str ''script''), Text (str ''z''), Tag (str ''/script'')]) =
   str ''# T'' @ [10, 10] @ str ''* a # b'' @ [10] @ str ''## s'' @ [10, 10] @ str ''x'' @ [10] @
   str ''y'' @ [10, 10] @ str ''z''"
    by (simp only:)
  with ok show ?thesis by (intro conjI)
qed

text \<open>
  C3. As stated the property fails: for two paragraphs the Markdown output has blank
  lines where the plain text has one newline, and no marker is involved; the two differ
  whether or not markers are deleted from the plain text too.
\<close>

theorem markdown_plain_text_differ:
  "strip_markdown (mdContent (str ''<p>a</p><p>b</p>'')) \<noteq>
     strip_markdown (plainText (str ''<p>a</p><p>b</p>'')) \<and>
   strip_markdown (mdContent (str ''<p>a</p><p>b</p>'')) \<noteq> plainText (str ''<p>a</p><p>b</p>'')"
  by (simp add: strip_markdown_def mdContent_def plainText_def trim_def string_eval)

text \<open>
  C3, amended. For every fragment of well delimited nodes (text without angle brackets,
  tags that are not empty and have no angle bracket inside) both encoders keep the text
  between the tags as it is and in its order, and differ only in what they write for
  tags and in the trim. The Markdown output is, node by node, the text, or what Markdown
  writes for the tag (\<open>#\<close> and a blank for h1, \<open>##\<close> and a blank for h2, \<open>*\<close> and a
  blank for li, a blank line for closing h1, h2 and p, one newline for br and for closing
  li, nothing for p and for any other tag). The plain-text output is, trimmed, node by
  node, the text, or one newline for br and for closing p and nothing for any other tag.
  Without what was written for tags the two (the plain text before the trim) are equal.
\<close>

theorem markdown_plain_text_same_content:
  "list_all node_ok ns \<Longrightarrow>
   mdContent (render ns) = concat (map md_piece ns) \<and>
   plainText (render ns) = trim (concat (map txt_piece ns)) \<and>
   without_tag_pieces md_piece ns = without_tag_pieces txt_piece ns"
proof -
  assume ok: "list_all node_ok ns"
  have "without_tag_pieces md_piece ns = text_of ns"
    by (rule without_tag_pieces_text) simp
  moreover have "without_tag_pieces txt_piece ns = text_of ns"
    by (rule without_tag_pieces_text) simp
  ultimately show ?thesis using mdContent_render [OF ok] plainText_render [OF ok] by simp
qed

theorem markdown_plain_text_same_content_witness:
  "list_all node_ok
     [Tag (str ''h1''), Text (str ''Title''), Tag (str ''/h1''), Tag (str ''p''),
      Text (str '' Line # one''), Tag (str ''br/''), Text (str ''Line two ''), Tag (str ''/p'')] \<and>
   list_all allowlisted
     [Tag (str ''h1''), Text (str ''Title''), Tag (str ''/h1''), Tag (str ''p''),
      Text (str '' Line # one''), Tag (str ''br/''), Text (str ''Line two ''), Tag (str ''/p'')] \<and>
   mdContent (render
     [Tag (str ''h1''), Text (str ''Title''), Tag (str ''/h1''), Tag (str ''p''),
      Text (str '' Line # one''), Tag (str ''br/''), Text (str ''Line two ''), Tag (str ''/p'')]) =
     str ''# Title'' @ [10, 10] @ str '' Line # one'' @ [10] @ str ''Line two '' @ [10, 10] \<and>
   plainText (render
     [Tag (str ''h1''), Text (str ''Title''), Tag (str ''/h1''), Tag (str ''p''),
      Text (str '' Line # one''), Tag (str ''br/''), Text (str ''Line two ''), Tag (str ''/p'')]) =
     str ''Title Line # one'' @ [10] @ str ''Line two'' \<and>
   without_tag_pieces md_piece
     [Tag (str ''h1''), Text (str ''Title''), Tag (str ''/h1''), Tag (str ''p''),
      Text (str '' Line # one''), Tag (str ''br/''), Text (str ''Line two ''), Tag (str ''/p'')] =
     str ''Title Line # oneLine two ''"
proof -
  have ok: "list_all node_ok
     [Tag (str ''h1''), Text (str ''Title''), Tag (str ''/h1''), Tag (str ''p''),
      Text (str '' Line # one''), Tag (str ''br/''), Text (str ''Line two ''), Tag (str ''/p'')]"
    by (simp add: bracket_free_def str_def)
  have al: "list_all allowlisted
     [Tag (str ''h1''), Text (str ''Title''), Tag (str ''/h1''), Tag (str ''p''),
      Text (str '' Line # one''), Tag (str ''br/''), Text (str ''Line two ''), Tag (str ''/p'')]"
    by (simp add: allowlist_def toLowerCase_def str_def)
  have md: "concat (map md_piece
     [Tag (str ''h1''), Text (str ''Title''), Tag (str ''/h1''), Tag (str ''p''),
      Text (str '' Line # one''), Tag (str ''br/''), Text (str ''Line two ''), Tag (str ''/p'')]) =
     str ''# Title'' @ [10, 10] @ str '' Line # one'' @ [10] @ str ''Line two '' @ [10, 10]"
    by (simp add: br_body_def toLowerCase_def is_space_def str_def)
  have tx: "trim (concat (map txt_piece
     [Tag (str ''h1''), Text (str ''Title''), Tag (str ''/h1''), Tag (str ''p''),
      Text (str '' Line # one''), Tag (str ''br/''), Text (str ''Line two ''), Tag (str ''/p'')])) =
     str ''Title Line # one'' @ [10] @ str ''Line two''"
    by (simp add: br_body_def toLowerCase_def is_space_def trim_def str_def)
  have w: "without_tag_pieces txt_piece
     [Tag (str ''h1''), Text (str ''Title''), Tag (str ''/h1''), Tag (str ''p''),
      Text (str '' Line # one''), Tag (str ''br/''), Text (str ''Line two ''), Tag (str ''/p'')] =
     str ''Title Line # oneLine two ''"
    by (simp add: without_tag_pieces_def str_def)
  note t = markdown_plain_text_same_content [OF ok]
  from t md have 1: "mdContent (render
     [Tag (str ''h1''), Text (str ''Title''), Tag (str ''/h1''), Tag (str ''p''),
      Text (str '' Line # one''), Tag (str ''br/''), Text (str ''Line two ''), Tag (str ''/p'')]) =
     str ''# Title'' @ [10, 10] @ str '' Line # one'' @ [10] @ str ''Line two '' @ [10, 10]"
    by (simp only:)
  from t tx have 2: "plainText (render
     [Tag (str ''h1''), Text (str ''Title''), Tag (str ''/h1''), Tag (str ''p''),
      Text (str '' Line # one''), Tag (str ''br/''), Text (str ''Line two ''), Tag (str ''/p'')]) =
     str ''Title Line # one'' @ [10] @ str ''Line two''"
    by (simp only:)
  from t w have 3: "without_tag_pieces md_piece
     [Tag (str ''h1''), Text (str ''Title''), Tag (str ''/h1''), Tag (str ''p''),
      Text (str '' Line # one''), Tag (str ''br/''), Text (str ''Line two ''), Tag (str ''/p'')] =
     str ''Title Line # oneLine two ''"
    by (simp only:)
  from ok al 1 2 3 show ?thesis by (intro conjI)
qed

text \<open>
  C4. As stated the property fails for DOCX: a \<open>script\<close> tag of the extractor's answer
  is in the DOCX content.
\<close>

theorem docx_keeps_foreign_tag:
  "contains (str ''<script>'') (docxContent (str ''<p>x</p><script>alert(1)</script>''))"
proof -
  have "contains (str ''<script>'') (str ''<p>x</p><script>alert(1)</script>'')"
    by (simp add: str_def)
  then show ?thesis unfolding docxContent_def by (rule contains_infix)
qed

text \<open>
  C4, amended. The Markdown and the plain-text output contain no complete tag at all,
  whatever the fragment; the DOCX content embeds the fragment as it is, so everything
  that occurs in the fragment occurs in the DOCX content, which is the payload for the
  target DOCX after the byte order mark.
\<close>

theorem text_encoders_strip_docx_embeds:
  "\<not> has_tag (mdContent h) \<and> \<not> has_tag (plainText h) \<and>
   (contains t h \<longrightarrow> contains t (docxContent h)) \<and>
   encode DOCX h x =
     Inr (Blob (TextParts [[65279], docxContent h]) (str ''application/msword''))"
proof -
  have "encode DOCX h x =
     Inr (Blob (TextParts [[65279], docxContent h]) (str ''application/msword''))"
    by (simp add: encode_def)
  moreover have "\<not> has_tag (mdContent h)"
    using no_tag_after_strip by (simp add: mdContent_def replace_all_def Let_def)
  moreover have "\<not> has_tag (plainText h)"
    using no_tag_after_strip has_tag_trim by (auto simp: plainText_def replace_all_def Let_def)
  moreover have "contains t h \<longrightarrow> contains t (docxContent h)"
    using contains_infix by (simp add: docxContent_def)
  ultimately show ?thesis by blast
qed

theorem text_encoders_strip_docx_embeds_witness:
  "contains (str ''<iframe>'') (str ''<iframe>'') \<and>
   contains (str ''<iframe>'') (docxContent (str ''<iframe>'')) \<and>
   \<not> has_tag (mdContent (str ''<iframe>'')) \<and> \<not> has_tag (plainText (str ''<iframe>''))"
proof -
  have "contains (str ''<iframe>'') (str ''<iframe>'')" by (simp add: str_def)
  with text_encoders_strip_docx_embeds [of "str ''<iframe>''" "str ''<iframe>''"]
  show ?thesis by blast
qed



text \<open>
  C6. A file whose name ends in \<open>.doc\<close>, in any case, is rejected at selection: the
  state becomes error with the guidance message, which names \<open>.docx\<close>; the stored file
  and the calls of the extractor are unchanged; and in no session, through the user
  interface or by calling the handlers in any order, is the extractor ever called with
  such a file.
\<close>

theorem legacy_doc_rejected:
  "(legacy_doc (file_name f) \<longrightarrow>
      conversion (handleFiles (Some (f # fs)) rnd s) =
        \<lparr>status = Error, progress = 0, error = Some legacy_doc_message,
         resultUrl = None, resultName = None\<rparr> \<and>
      file_st (handleFiles (Some (f # fs)) rnd s) = file_st s \<and>
      extractorCalls (handleFiles (Some (f # fs)) rnd s) = extractorCalls s) \<and>
   contains (str ''.docx'') legacy_doc_message \<and>
   (run gated es initial_session = Some u \<longrightarrow>
      list_all (\<lambda>n. \<not> legacy_doc n) (extracted_names u))"
proof -
  have a: "legacy_doc (file_name f) \<longrightarrow>
      conversion (handleFiles (Some (f # fs)) rnd s) =
        \<lparr>status = Error, progress = 0, error = Some legacy_doc_message,
         resultUrl = None, resultName = None\<rparr> \<and>
      file_st (handleFiles (Some (f # fs)) rnd s) = file_st s \<and>
      extractorCalls (handleFiles (Some (f # fs)) rnd s) = extractorCalls s"
    by (simp add: handleFiles_def legacy_doc_def)
  have b: "contains (str ''.docx'') legacy_doc_message"
    by (simp add: legacy_doc_message_def str_def)
  have c: "list_all (\<lambda>n. \<not> legacy_doc n) (extracted_names u)"
    if "run gated es initial_session = Some u"
  proof -
    from that have "doc_inv (app_state u)" by (rule doc_inv_reachable)
    then have "list_all (\<lambda>(f, fmt). \<not> legacy_doc (file_name f)) (extractorCalls (app_state u))"
      by (simp add: doc_inv_def)
    then show ?thesis by (auto simp: extracted_names_def list_all_iff)
  qed
  from a b c show ?thesis by blast
qed

theorem legacy_doc_rejected_witness:
  "legacy_doc (file_name file_doc) \<and>
   conversion (handleFiles (Some [file_doc]) (str ''id0'') initial_app) =
     \<lparr>status = Error, progress = 0, error = Some legacy_doc_message,
      resultUrl = None, resultName = None\<rparr> \<and>
   file_st (handleFiles (Some [file_doc]) (str ''id0'') initial_app) = None \<and>
   extractorCalls (handleFiles (Some [file_doc]) (str ''id0'') initial_app) = [] \<and>
   (case run True [SelectFiles (Some [file_doc]) (str ''id0''), ClickReset,
                   SelectFiles (Some [file_a]) (str ''id1''), ClickStart] initial_session of
      None \<Rightarrow> False
    | Some u \<Rightarrow> list_all (\<lambda>n. \<not> legacy_doc n) (extracted_names u))"
proof -
  have l: "legacy_doc (file_name file_doc)"
    by (simp add: legacy_doc_def file_doc_def endsWith_def toLowerCase_def str_def)
  have "run True [SelectFiles (Some [file_doc]) (str ''id0''), ClickReset,
             SelectFiles (Some [file_a]) (str ''id1''), ClickStart] initial_session \<noteq> None"
    by (simp add: session_eval str_def)
  then obtain u where u: "run True [SelectFiles (Some [file_doc]) (str ''id0''), ClickReset,
             SelectFiles (Some [file_a]) (str ''id1''), ClickStart] initial_session = Some u" by blast
  note t = legacy_doc_rejected [of file_doc "[]" "str ''id0''" initial_app True
      "[SelectFiles (Some [file_doc]) (str ''id0''), ClickReset,
        SelectFiles (Some [file_a]) (str ''id1''), ClickStart]" u]
  from t l u have "list_all (\<lambda>n. \<not> legacy_doc n) (extracted_names u)"
    and "conversion (handleFiles (Some [file_doc]) (str ''id0'') initial_app) =
     \<lparr>status = Error, progress = 0, error = Some legacy_doc_message,
      resultUrl = None, resultName = None\<rparr>"
    and "file_st (handleFiles (Some [file_doc]) (str ''id0'') initial_app) = file_st initial_app"
    and "extractorCalls (handleFiles (Some [file_doc]) (str ''id0'') initial_app) = extractorCalls initial_app"
    by blast+
  with l show ?thesis unfolding u by (simp add: initial_app_def)
qed

text \<open>
  C7. The specification asks for the source name with its extension replaced:
  \<open>my.report.pdf\<close> for \<open>my.report.txt\<close>. The code keeps what stands before the first
  dot and suggests \<open>my.pdf\<close>.
\<close>

theorem result_name_cuts_at_first_dot:
  "resultName_of (str ''my.report.txt'') PDF = str ''my.pdf''"
  by (simp add: resultName_of_def split_dot_first_def toLowerCase_def str_def)

text \<open>
  C8. The specification asks that whatever a stage throws the attempt ends in the error
  state and never stays converting. The \<open>catch\<close> block reads \<open>err.message\<close> before it
  sets the state: when \<open>html2canvas\<close> rejects with \<open>undefined\<close> that read throws, the
  state is not set, and the session stays converting at progress 50 with no error
  message, nothing left waiting, and no control that takes an event: neither reset nor
  start nor file selection nor a format button. (A thrown value that has properties does
  end in the error state: lemma \<open>catch_block_error\<close>.)
\<close>

theorem thrown_undefined_leaves_converting:
  "encode PNG (str ''<p>a</p>'') snapshot_rejects_undefined = Inl Nullish \<and>
   map_option status_of
     (run True [SelectFiles (Some [file_a]) (str ''id1''), ClickFormat PNG, ClickStart,
                Extracted 0 (Inr (str ''<p>a</p>'')) True, Rendered 0 snapshot_rejects_undefined]
        initial_session) = Some Converting \<and>
   map_option progress_of
     (run True [SelectFiles (Some [file_a]) (str ''id1''), ClickFormat PNG, ClickStart,
                Extracted 0 (Inr (str ''<p>a</p>'')) True, Rendered 0 snapshot_rejects_undefined]
        initial_session) = Some 50 \<and>
   map_option (\<lambda>u. error (conversion (app_state u)))
     (run True [SelectFiles (Some [file_a]) (str ''id1''), ClickFormat PNG, ClickStart,
                Extracted 0 (Inr (str ''<p>a</p>'')) True, Rendered 0 snapshot_rejects_undefined]
        initial_session) = Some None \<and>
   map_option waiting
     (run True [SelectFiles (Some [file_a]) (str ''id1''), ClickFormat PNG, ClickStart,
                Extracted 0 (Inr (str ''<p>a</p>'')) True, Rendered 0 snapshot_rejects_undefined]
        initial_session) = Some [] \<and>
   run True [SelectFiles (Some [file_a]) (str ''id1''), ClickFormat PNG, ClickStart,
             Extracted 0 (Inr (str ''<p>a</p>'')) True, Rendered 0 snapshot_rejects_undefined,
             ClickReset] initial_session = None \<and>
   run True [SelectFiles (Some [file_a]) (str ''id1''), ClickFormat PNG, ClickStart,
             Extracted 0 (Inr (str ''<p>a</p>'')) True, Rendered 0 snapshot_rejects_undefined,
             ClickStart] initial_session = None \<and>
   run True [SelectFiles (Some [file_a]) (str ''id1''), ClickFormat PNG, ClickStart,
             Extracted 0 (Inr (str ''<p>a</p>'')) True, Rendered 0 snapshot_rejects_undefined,
             SelectFiles (Some [file_b]) (str ''id2'')] initial_session = None \<and>
   run True [SelectFiles (Some [file_a]) (str ''id1''), ClickFormat PNG, ClickStart,
             Extracted 0 (Inr (str ''<p>a</p>'')) True, Rendered 0 snapshot_rejects_undefined,
             ClickFormat TXT] initial_session = None"
  by (simp add: session_eval str_def)

text \<open>
  C9. As stated the property fails: a \<open><\<close> of the text that opens no tag stays in the
  plain-text output.
\<close>

theorem plain_text_keeps_stray_bracket:
  "\<not> bracket_free (plainText (str ''<p>if a < b then</p>''))"
  by (simp add: plainText_def trim_def bracket_free_def string_eval)

text \<open>
  C9, amended. For every fragment of well delimited nodes the plain-text output
  contains neither \<open><\<close> nor \<open>>\<close>.
\<close>

theorem plain_text_bracket_free:
  "list_all node_ok ns \<Longrightarrow> bracket_free (plainText (render ns))"
  using plainText_render [of ns] txt_pieces_bracket_free [of ns] bracket_free_trim by simp

theorem plain_text_bracket_free_witness:
  "list_all node_ok
     [Tag (str ''p''), Text (str ''Line one''), Tag (str ''br /''), Text (str ''Line two''),
      Tag (str ''/p'')] \<and>
   bracket_free (plainText (render
     [Tag (str ''p''), Text (str ''Line one''), Tag (str ''br /''), Text (str ''Line two''),
      Tag (str ''/p'')]))"
  using plain_text_bracket_free
    [of "[Tag (str ''p''), Text (str ''Line one''), Tag (str ''br /''), Text (str ''Line two''),
          Tag (str ''/p'')]"]
  by (simp add: bracket_free_def str_def)



end
